theory Spec2Isabelle
  imports Main "HOL-Library.Word"
begin

section \<open>Intrusive reference counting: GCObject, its two shapes, and Ref\<close>

text \<open>
  The development embeds \<^verbatim>\<open>include/gc/GCObject.h\<close> (the atomic variant and, from the
  top-level README, the plain variant), the two shape classes \<^verbatim>\<open>GCSingleObject\<close> and
  \<^verbatim>\<open>GCMultiObject\<close>, and the handle \<^verbatim>\<open>Ref<T>\<close> of \<^verbatim>\<open>include/gc/Ref.h\<close>.

  Conventions of the embedding:
  \<^item> \<^verbatim>\<open>int\<close> is 32 bits wide. \<^verbatim>\<open>std::atomic<int>\<close> arithmetic wraps around (two's
    complement), so the atomic count is a \<open>32 word\<close> read through \<open>sint\<close>; on the plain
    \<^verbatim>\<open>int\<close> count, \<^verbatim>\<open>++\<close> at \<open>INT_MAX\<close> and \<^verbatim>\<open>--\<close> at \<open>INT_MIN\<close> are undefined.
  \<^item> Undefined behaviour is an error value: the operation returns \<open>Inl e\<close>.
  \<^item> Objects live in a heap indexed by addresses; \<open>None\<close> at an address means that no
    object is there (never allocated, or already deleted). A pointer is
    \<open>addr option\<close>, with \<open>None\<close> for \<^verbatim>\<open>nullptr\<close>. \<^verbatim>\<open>new\<close> never fails and never hands
    out an address twice.
  \<^item> Handles are C++ objects as well: they live in a store indexed by handle ids, so
    that \<^verbatim>\<open>this == &other\<close> is equality of ids. A handle is either a variable of the
    client, or a data member of a managed object (the \<^verbatim>\<open>next\<close> field of a list node);
    the destructor of a managed object destroys the handles that are its members.
  \<^item> A trace of events records every count operation, every call of \<^verbatim>\<open>destroy()\<close>
    and every destructor run of a managed element. It is ghost state: no operation
    reads it.
  \<^item> Only the pointer that the factory returns (the first element of a run) is
    modelled; of the payload of user classes only the handles are.
\<close>

subsection \<open>Data\<close>

type_synonym addr = nat
type_synonym hid = nat

text \<open>The class that fixes the teardown: \<^verbatim>\<open>delete this\<close> or \<^verbatim>\<open>delete[] this\<close>.\<close>

datatype gc_class = GCSingleObject | GCMultiObject

text \<open>
  The class \<open>T\<close> of an allocation \<^verbatim>\<open>allocate<T>\<close>: one of the two shape classes itself,
  or a user class that derives from it (\<^verbatim>\<open>class MyArray : public GCMultiObject\<close>).
\<close>

datatype obj_class = Exactly gc_class | Derived gc_class

fun shape_of :: "obj_class \<Rightarrow> gc_class" where
  "shape_of (Exactly c) = c"
| "shape_of (Derived c) = c"

text \<open>
  A managed allocation: the count of the object the pointer designates, the class of
  the elements, and the number of elements that were constructed in the allocation.
\<close>

record gcobject =
  ref_count :: "32 word"
  dyn_type :: obj_class
  len :: nat

datatype event =
  Inc addr
  | Dec addr
  | Destroy addr gc_class
  | Dtor addr nat

datatype error =
  DanglingPointer
  | NullDeref
  | DeadHandle
  | SignedOverflow
  | ArrayDeleteMismatch
  | DestroyedTwice

text \<open>Where a handle object lives.\<close>

datatype place = Client | Member addr

text \<open>A handle object: alive with its place and its \<^verbatim>\<open>ptr\<close> field, or past its destructor.\<close>

datatype handle = Live place "addr option" | Gone

record state =
  heap :: "addr \<Rightarrow> gcobject option"
  next_addr :: addr
  handles :: "handle list"
  trace :: "event list"

definition init_state :: state where
  "init_state = \<lparr>heap = (\<lambda>_. None), next_addr = 0, handles = [], trace = []\<rparr>"

subsection \<open>Shape variants: allocation\<close>

text \<open>
  \<^verbatim>\<open>GCSingleObject::allocate_impl<T>(args...)\<close> is \<^verbatim>\<open>new T(args...)\<close>: one instance,
  whose \<^verbatim>\<open>ref_count\<close> member is initialised to 0.
\<close>

definition allocate_impl_single :: "obj_class \<Rightarrow> state \<Rightarrow> addr \<times> state" where
  "allocate_impl_single T s =
     (let a = next_addr s
      in (a, s\<lparr>heap := (heap s)(a \<mapsto> \<lparr>ref_count = 0, dyn_type = T, len = 1\<rparr>),
               next_addr := a + 1\<rparr>))"

text \<open>
  \<^verbatim>\<open>GCMultiObject::allocate_impl<T>(count)\<close> is \<^verbatim>\<open>new T[count]\<close>: \<open>count\<close> default
  constructed instances, the pointer designating the first. With \<open>count = 0\<close> the
  pointer is not null but designates no object.
\<close>

definition allocate_impl_multi :: "obj_class \<Rightarrow> nat \<Rightarrow> state \<Rightarrow> addr \<times> state" where
  "allocate_impl_multi T n s =
     (let a = next_addr s
      in if n = 0 then (a, s\<lparr>next_addr := a + 1\<rparr>)
         else (a, s\<lparr>heap := (heap s)(a \<mapsto> \<lparr>ref_count = 0, dyn_type = T, len = n\<rparr>),
                    next_addr := a + 1\<rparr>))"

text \<open>
  \<^verbatim>\<open>GCObject::allocate<T>(args...)\<close> forwards to \<^verbatim>\<open>T::allocate_impl\<close>; which one that is
  follows from the base class of \<open>T\<close>. The argument \<open>n\<close> is the element count of the
  array factory (the constructor arguments of the single factory are payload).
\<close>

definition allocate :: "obj_class \<Rightarrow> nat \<Rightarrow> state \<Rightarrow> addr \<times> state" where
  "allocate T n s =
     (case shape_of T of GCSingleObject \<Rightarrow> allocate_impl_single T s
                       | GCMultiObject \<Rightarrow> allocate_impl_multi T n s)"

subsection \<open>The count\<close>

text \<open>
  \<^verbatim>\<open>fetch_add\<close> and \<^verbatim>\<open>fetch_sub\<close> on \<^verbatim>\<open>std::atomic<int>\<close>: the pair of the value read and
  the value stored. The arithmetic wraps.
\<close>

definition fetch_add :: "32 word \<Rightarrow> 32 word \<Rightarrow> 32 word \<times> 32 word" where
  "fetch_add c d = (c, c + d)"

definition fetch_sub :: "32 word \<Rightarrow> 32 word \<Rightarrow> 32 word \<times> 32 word" where
  "fetch_sub c d = (c, c - d)"

definition INT_MAX :: "32 word" where
  "INT_MAX = 0x7FFFFFFF"

definition INT_MIN :: "32 word" where
  "INT_MIN = 0x80000000"

text \<open>The two variants of \<^verbatim>\<open>GCObject\<close>: \<^verbatim>\<open>std::atomic<int> ref_count\<close> and \<^verbatim>\<open>int ref_count\<close>.\<close>

datatype variant = Atomic | Plain

text \<open>
  The decrement and its test, as \<^verbatim>\<open>decRef\<close> writes them: the value stored, and whether
  \<^verbatim>\<open>destroy()\<close> is to be called. Atomic: \<^verbatim>\<open>ref_count.fetch_sub(1, acq_rel) == 1\<close>. Plain:
  \<^verbatim>\<open>--ref_count == 0\<close>, undefined at \<open>INT_MIN\<close>.
\<close>

fun dec_count :: "variant \<Rightarrow> 32 word \<Rightarrow> error + 32 word \<times> bool" where
  "dec_count Atomic c = (let (old, new) = fetch_sub c 1 in Inr (new, old = 1))"
| "dec_count Plain c =
     (if c = INT_MIN then Inl SignedOverflow
      else (let new = c - 1 in Inr (new, new = 0)))"

subsection \<open>Teardown\<close>

text \<open>
  The handles that are members of the object at \<open>a\<close>. Its destructor destroys them, the
  last constructed first; the destructor of a handle is \<^verbatim>\<open>if (ptr) ptr->decRef();\<close>, so
  what remains to be done for the members is one \<^verbatim>\<open>decRef\<close> per pointer that is not null.
\<close>

fun member_ptr :: "addr \<Rightarrow> handle \<Rightarrow> addr option" where
  "member_ptr a (Live (Member b) (Some q)) = (if b = a then Some q else None)"
| "member_ptr a _ = None"

definition member_ptrs :: "addr \<Rightarrow> handle list \<Rightarrow> addr list" where
  "member_ptrs a hs = rev (List.map_filter (member_ptr a) hs)"

fun drop_member :: "addr \<Rightarrow> handle \<Rightarrow> handle" where
  "drop_member a (Live (Member b) q) = (if b = a then Gone else Live (Member b) q)"
| "drop_member a h = h"

definition drop_members :: "addr \<Rightarrow> handle list \<Rightarrow> handle list" where
  "drop_members a hs = map (drop_member a) hs"

text \<open>
  What is left to do once a count is written: \<^verbatim>\<open>decRef\<close> calls that the destructors of
  member handles make, and the release of the storage of an object whose destructor has
  run.
\<close>

datatype task = Release addr | Free addr

fun is_release :: "task \<Rightarrow> bool" where
  "is_release (Release a) = True"
| "is_release (Free a) = False"

text \<open>
  The destructor of the object at \<open>a\<close> after its body has run: the member handles are
  gone, their pointers are released next, then the storage.
\<close>

definition destroy_members :: "addr \<Rightarrow> state \<Rightarrow> task list \<times> state" where
  "destroy_members a s =
     (map Release (member_ptrs a (handles s)) @ [Free a],
      s\<lparr>handles := drop_members a (handles s)\<rparr>)"

text \<open>
  \<^verbatim>\<open>GCSingleObject::destroy()\<close> is \<^verbatim>\<open>delete this\<close>: the virtual destructor of the one
  instance runs, whatever its class.
\<close>

definition delete_scalar :: "addr \<Rightarrow> state \<Rightarrow> task list \<times> state" where
  "delete_scalar a s = destroy_members a (s\<lparr>trace := trace s @ [Dtor a 0]\<rparr>)"

text \<open>
  \<^verbatim>\<open>GCMultiObject::destroy()\<close> is \<^verbatim>\<open>delete[] this\<close>, where \<^verbatim>\<open>this\<close> has the static type
  \<^verbatim>\<open>GCMultiObject*\<close>. An array delete expression is defined only when the elements have
  that very type; then the destructors of all \<open>n\<close> elements run, last element first.
  When the elements are of a class derived from \<^verbatim>\<open>GCMultiObject\<close>, which is what
  \<^verbatim>\<open>allocate_impl<T>\<close> makes for every user class, the behaviour is undefined.
\<close>

definition delete_array :: "addr \<Rightarrow> gcobject \<Rightarrow> state \<Rightarrow> error + task list \<times> state" where
  "delete_array a obj s =
     (if dyn_type obj = Exactly GCMultiObject
      then Inr (destroy_members a (s\<lparr>trace := trace s @ map (Dtor a) (rev [0..<len obj])\<rparr>))
      else Inl ArrayDeleteMismatch)"

text \<open>
  The virtual \<^verbatim>\<open>destroy()\<close>, dispatched on the class of the object, up to the point
  where the destructors of the member handles are due.
\<close>

definition begin_destroy :: "addr \<Rightarrow> gcobject \<Rightarrow> state \<Rightarrow> error + task list \<times> state" where
  "begin_destroy a obj s =
     (case shape_of (dyn_type obj) of
        GCSingleObject \<Rightarrow>
          Inr (delete_scalar a (s\<lparr>trace := trace s @ [Destroy a GCSingleObject]\<rparr>))
      | GCMultiObject \<Rightarrow>
          delete_array a obj (s\<lparr>trace := trace s @ [Destroy a GCMultiObject]\<rparr>))"

definition live_count :: "handle list \<Rightarrow> nat" where
  "live_count hs = length (filter (\<lambda>h. h \<noteq> Gone) hs)"

text \<open>
  \<^verbatim>\<open>decRef\<close> calls \<^verbatim>\<open>destroy()\<close>, whose destructor calls \<^verbatim>\<open>decRef\<close> on what the members
  hold, and so on along a chain of nodes. The recursion is written with the list of
  steps that are still due, the first one first: \<open>Release a\<close> is the body of
  \<^verbatim>\<open>decRef\<close> on the object at \<open>a\<close>, and \<open>Free a\<close> is the end of \<^verbatim>\<open>delete\<close>. The object
  stays in the heap while its members are destroyed; a \<^verbatim>\<open>destroy()\<close> on it in that
  time, while its \<open>Free\<close> is still due, deletes an object whose destructor is running,
  which is undefined.
\<close>

function exec :: "variant \<Rightarrow> task list \<Rightarrow> state \<Rightarrow> error + state" where
  "exec v [] s = Inr s"
| "exec v (Free a # ts) s = exec v ts (s\<lparr>heap := (heap s)(a := None)\<rparr>)"
| "exec v (Release a # ts) s =
     (case heap s a of
        None \<Rightarrow> Inl DanglingPointer
      | Some obj \<Rightarrow>
          (case dec_count v (ref_count obj) of
             Inl e \<Rightarrow> Inl e
           | Inr (new, zero) \<Rightarrow>
               if zero
               then (if Free a \<in> set ts then Inl DestroyedTwice
                     else (case begin_destroy a (obj\<lparr>ref_count := new\<rparr>)
                                 (s\<lparr>heap := (heap s)(a \<mapsto> obj\<lparr>ref_count := new\<rparr>),
                                    trace := trace s @ [Dec a]\<rparr>) of
                             Inl e \<Rightarrow> Inl e
                           | Inr (ts', s2) \<Rightarrow> exec v (ts' @ ts) s2))
               else exec v ts (s\<lparr>heap := (heap s)(a \<mapsto> obj\<lparr>ref_count := new\<rparr>),
                                 trace := trace s @ [Dec a]\<rparr>)))"
  by pat_completeness auto
termination
proof -
  have members: "live_count (drop_members a hs) + length (member_ptrs a hs) \<le> live_count hs"
    for a hs
  proof (induction hs)
    case Nil
    show ?case by (simp add: live_count_def drop_members_def member_ptrs_def map_filter_simps)
  next
    case (Cons h hs)
    then show ?case
      by (cases "(a, h)" rule: member_ptr.cases)
        (auto simp: live_count_def drop_members_def member_ptrs_def map_filter_simps)
  qed
  have shrink: "live_count (handles s2) + length (filter is_release ts') \<le> live_count (handles s)"
    if "begin_destroy a obj s = Inr (ts', s2)" for a obj s ts' s2
  proof -
    from that have "ts' = map Release (member_ptrs a (handles s)) @ [Free a]
        \<and> handles s2 = drop_members a (handles s)"
      by (auto simp: begin_destroy_def delete_scalar_def delete_array_def destroy_members_def
          split: gc_class.splits if_splits)
    with members [of a "handles s"] show ?thesis
      by (simp add: filter_map o_def)
  qed
  show ?thesis
    by (relation "measures
        [\<lambda>(v, ts, s). live_count (handles s) + length (filter is_release ts),
         \<lambda>(v, ts, s). length ts]")
      (auto dest!: shrink)
qed
subsection \<open>GCObject: the atomic count\<close>

text \<open>\<^verbatim>\<open>void incRef() noexcept { ref_count.fetch_add(1, relaxed); }\<close>\<close>

definition incRef :: "addr \<Rightarrow> state \<Rightarrow> error + state" where
  "incRef a s =
     (case heap s a of
        None \<Rightarrow> Inl DanglingPointer
      | Some obj \<Rightarrow>
          (let (old, new) = fetch_add (ref_count obj) 1
           in Inr (s\<lparr>heap := (heap s)(a \<mapsto> obj\<lparr>ref_count := new\<rparr>),
                     trace := trace s @ [Inc a]\<rparr>)))"

text \<open>
  \<^verbatim>\<open>void decRef() noexcept { if (ref_count.fetch_sub(1, acq_rel) == 1) destroy(); }\<close>
  and the virtual \<^verbatim>\<open>destroy()\<close> with all that its destructor sets off. Lemma
  \<open>decRef_unfold\<close> below states \<^verbatim>\<open>decRef\<close> in the shape of the source.
\<close>

definition decRef :: "addr \<Rightarrow> state \<Rightarrow> error + state" where
  "decRef a s = exec Atomic [Release a] s"

definition destroy :: "addr \<Rightarrow> state \<Rightarrow> error + state" where
  "destroy a s =
     (case heap s a of
        None \<Rightarrow> Inl DanglingPointer
      | Some obj \<Rightarrow>
          (case begin_destroy a obj s of
             Inl e \<Rightarrow> Inl e
           | Inr (ts, s1) \<Rightarrow> exec Atomic ts s1))"

subsection \<open>GCObject: the plain count\<close>

text \<open>\<^verbatim>\<open>void incRef() noexcept { ++ref_count; }\<close> on \<^verbatim>\<open>int ref_count\<close>.\<close>

definition incRef_plain :: "addr \<Rightarrow> state \<Rightarrow> error + state" where
  "incRef_plain a s =
     (case heap s a of
        None \<Rightarrow> Inl DanglingPointer
      | Some obj \<Rightarrow>
          if ref_count obj = INT_MAX then Inl SignedOverflow
          else Inr (s\<lparr>heap := (heap s)(a \<mapsto> obj\<lparr>ref_count := ref_count obj + 1\<rparr>),
                      trace := trace s @ [Inc a]\<rparr>))"

text \<open>\<^verbatim>\<open>void decRef() noexcept { if (--ref_count == 0) destroy(); }\<close>\<close>

definition decRef_plain :: "addr \<Rightarrow> state \<Rightarrow> error + state" where
  "decRef_plain a s = exec Plain [Release a] s"

subsection \<open>Ref: the owning handle\<close>

text \<open>
  Reading and writing the field \<^verbatim>\<open>ptr\<close> of a handle object. The handle object must
  exist: one that has been destroyed, alone or with the object it was a member of, is
  storage that has been given up.
\<close>

definition get_ptr :: "hid \<Rightarrow> state \<Rightarrow> error + addr option" where
  "get_ptr h s =
     (if h < length (handles s)
      then (case handles s ! h of Live pl p \<Rightarrow> Inr p | Gone \<Rightarrow> Inl DeadHandle)
      else Inl DeadHandle)"

definition set_ptr :: "hid \<Rightarrow> addr option \<Rightarrow> state \<Rightarrow> error + state" where
  "set_ptr h p s =
     (if h < length (handles s)
      then (case handles s ! h of
              Live pl q \<Rightarrow> Inr (s\<lparr>handles := (handles s)[h := Live pl p]\<rparr>)
            | Gone \<Rightarrow> Inl DeadHandle)
      else Inl DeadHandle)"

definition get_place :: "hid \<Rightarrow> state \<Rightarrow> error + place" where
  "get_place h s =
     (if h < length (handles s)
      then (case handles s ! h of Live pl p \<Rightarrow> Inr pl | Gone \<Rightarrow> Inl DeadHandle)
      else Inl DeadHandle)"

text \<open>
  A handle object comes into being at a place, with its \<^verbatim>\<open>ptr\<close> member initialised. A
  member can only be constructed in an object that exists.
\<close>

definition place_ok :: "place \<Rightarrow> state \<Rightarrow> bool" where
  "place_ok pl s = (case pl of Client \<Rightarrow> True | Member a \<Rightarrow> heap s a \<noteq> None)"

definition new_handle :: "place \<Rightarrow> addr option \<Rightarrow> state \<Rightarrow> hid \<times> state" where
  "new_handle pl p s = (length (handles s), s\<lparr>handles := handles s @ [Live pl p]\<rparr>)"

text \<open>The statements \<^verbatim>\<open>if (ptr) ptr->incRef();\<close> and \<^verbatim>\<open>if (ptr) ptr->decRef();\<close>.\<close>

definition if_ptr_incRef :: "addr option \<Rightarrow> state \<Rightarrow> error + state" where
  "if_ptr_incRef p s = (case p of None \<Rightarrow> Inr s | Some a \<Rightarrow> incRef a s)"

definition if_ptr_decRef :: "addr option \<Rightarrow> state \<Rightarrow> error + state" where
  "if_ptr_decRef p s = (case p of None \<Rightarrow> Inr s | Some a \<Rightarrow> decRef a s)"

text \<open>\<^verbatim>\<open>Ref() = default;\<close>\<close>

definition Ref_default :: "place \<Rightarrow> state \<Rightarrow> error + hid \<times> state" where
  "Ref_default pl s =
     (if place_ok pl s then Inr (new_handle pl None s) else Inl DanglingPointer)"

text \<open>\<^verbatim>\<open>explicit Ref(T* p) : ptr(p) { if (ptr) ptr->incRef(); }\<close>\<close>

definition Ref_from_ptr :: "place \<Rightarrow> addr option \<Rightarrow> state \<Rightarrow> error + hid \<times> state" where
  "Ref_from_ptr pl p s =
     (if place_ok pl s
      then (let (h, s1) = new_handle pl p s
            in case if_ptr_incRef p s1 of Inl e \<Rightarrow> Inl e | Inr s2 \<Rightarrow> Inr (h, s2))
      else Inl DanglingPointer)"

text \<open>\<^verbatim>\<open>Ref(const Ref& other) : ptr(other.ptr) { if (ptr) ptr->incRef(); }\<close>\<close>

definition Ref_copy :: "place \<Rightarrow> hid \<Rightarrow> state \<Rightarrow> error + hid \<times> state" where
  "Ref_copy pl other s =
     (if place_ok pl s
      then (case get_ptr other s of
              Inl e \<Rightarrow> Inl e
            | Inr p \<Rightarrow>
                (let (h, s1) = new_handle pl p s
                 in case if_ptr_incRef p s1 of Inl e \<Rightarrow> Inl e | Inr s2 \<Rightarrow> Inr (h, s2)))
      else Inl DanglingPointer)"

text \<open>\<^verbatim>\<open>Ref(Ref&& other) noexcept : ptr(other.ptr) { other.ptr = nullptr; }\<close>\<close>

definition Ref_move :: "place \<Rightarrow> hid \<Rightarrow> state \<Rightarrow> error + hid \<times> state" where
  "Ref_move pl other s =
     (if place_ok pl s
      then (case get_ptr other s of
              Inl e \<Rightarrow> Inl e
            | Inr p \<Rightarrow>
                (let (h, s1) = new_handle pl p s
                 in case set_ptr other None s1 of Inl e \<Rightarrow> Inl e | Inr s2 \<Rightarrow> Inr (h, s2)))
      else Inl DanglingPointer)"

text \<open>
  \<^verbatim>\<open>Ref& operator=(const Ref& other)\<close>:
  \<^verbatim>\<open>if (this == &other) return *this; if (ptr) ptr->decRef(); ptr = other.ptr;
  if (ptr) ptr->incRef(); return *this;\<close>
  Both operands must be handle objects that exist, on entry and again after the
  \<^verbatim>\<open>decRef\<close>, when \<^verbatim>\<open>other.ptr\<close> is read and \<^verbatim>\<open>ptr\<close> is written: the \<^verbatim>\<open>decRef\<close> may have
  destroyed the object that one of them is a member of.
\<close>

definition assign_copy :: "hid \<Rightarrow> hid \<Rightarrow> state \<Rightarrow> error + state" where
  "assign_copy this other s =
     (case get_ptr this s of
        Inl e \<Rightarrow> Inl e
      | Inr q \<Rightarrow>
          (case get_ptr other s of
             Inl e \<Rightarrow> Inl e
           | Inr _ \<Rightarrow>
               if this = other then Inr s
               else
                 (case if_ptr_decRef q s of
                    Inl e \<Rightarrow> Inl e
                  | Inr s1 \<Rightarrow>
                      (case get_ptr other s1 of
                         Inl e \<Rightarrow> Inl e
                       | Inr p \<Rightarrow>
                           (case set_ptr this p s1 of
                              Inl e \<Rightarrow> Inl e
                            | Inr s2 \<Rightarrow> if_ptr_incRef p s2)))))"

text \<open>
  \<^verbatim>\<open>Ref& operator=(Ref&& other) noexcept\<close>:
  \<^verbatim>\<open>if (this == &other) return *this; if (ptr) ptr->decRef(); ptr = other.ptr;
  other.ptr = nullptr; return *this;\<close>
\<close>

definition assign_move :: "hid \<Rightarrow> hid \<Rightarrow> state \<Rightarrow> error + state" where
  "assign_move this other s =
     (case get_ptr this s of
        Inl e \<Rightarrow> Inl e
      | Inr q \<Rightarrow>
          (case get_ptr other s of
             Inl e \<Rightarrow> Inl e
           | Inr _ \<Rightarrow>
               if this = other then Inr s
               else
                 (case if_ptr_decRef q s of
                    Inl e \<Rightarrow> Inl e
                  | Inr s1 \<Rightarrow>
                      (case get_ptr other s1 of
                         Inl e \<Rightarrow> Inl e
                       | Inr p \<Rightarrow>
                           (case set_ptr this p s1 of
                              Inl e \<Rightarrow> Inl e
                            | Inr s2 \<Rightarrow> set_ptr other None s2)))))"

text \<open>
  \<^verbatim>\<open>~Ref() { if (ptr) ptr->decRef(); }\<close>, after which the handle object is gone.
\<close>

definition Ref_dtor :: "hid \<Rightarrow> state \<Rightarrow> error + state" where
  "Ref_dtor this s =
     (case get_ptr this s of
        Inl e \<Rightarrow> Inl e
      | Inr p \<Rightarrow>
          (case if_ptr_decRef p s of
             Inl e \<Rightarrow> Inl e
           | Inr s1 \<Rightarrow> Inr (s1\<lparr>handles := (handles s1)[this := Gone]\<rparr>)))"

text \<open>
  The accessors. \<^verbatim>\<open>operator->\<close> and \<^verbatim>\<open>get\<close> return the stored pointer,
  \<^verbatim>\<open>operator bool\<close> compares it with \<^verbatim>\<open>nullptr\<close>, and \<^verbatim>\<open>operator*\<close> dereferences it: the
  result of the latter is the object designated, which must exist.
\<close>

definition operator_arrow :: "hid \<Rightarrow> state \<Rightarrow> error + addr option" where
  "operator_arrow this s = get_ptr this s"

definition operator_star :: "hid \<Rightarrow> state \<Rightarrow> error + addr" where
  "operator_star this s =
     (case get_ptr this s of
        Inl e \<Rightarrow> Inl e
      | Inr None \<Rightarrow> Inl NullDeref
      | Inr (Some a) \<Rightarrow> (case heap s a of None \<Rightarrow> Inl DanglingPointer | Some _ \<Rightarrow> Inr a))"

definition Ref_get :: "hid \<Rightarrow> state \<Rightarrow> error + addr option" where
  "Ref_get this s = get_ptr this s"

definition operator_bool :: "hid \<Rightarrow> state \<Rightarrow> error + bool" where
  "operator_bool this s =
     (case get_ptr this s of Inl e \<Rightarrow> Inl e | Inr p \<Rightarrow> Inr (p \<noteq> None))"

text \<open>
  Member access \<^verbatim>\<open>r->m\<close>: the built-in arrow applied to the pointer that
  \<^verbatim>\<open>operator->\<close> returns, which must designate an object.
\<close>

definition member_access :: "hid \<Rightarrow> state \<Rightarrow> error + addr" where
  "member_access this s =
     (case operator_arrow this s of
        Inl e \<Rightarrow> Inl e
      | Inr None \<Rightarrow> Inl NullDeref
      | Inr (Some a) \<Rightarrow> (case heap s a of None \<Rightarrow> Inl DanglingPointer | Some _ \<Rightarrow> Inr a))"

subsection \<open>Observations\<close>

text \<open>How often \<^verbatim>\<open>destroy()\<close> has been invoked on the object at an address.\<close>

fun is_destroy_of :: "addr \<Rightarrow> event \<Rightarrow> bool" where
  "is_destroy_of a (Destroy b c) = (a = b)"
| "is_destroy_of a _ = False"

definition destroy_calls :: "addr \<Rightarrow> state \<Rightarrow> nat" where
  "destroy_calls a s = length (filter (is_destroy_of a) (trace s))"

text \<open>
  How many handles that exist, variables of the client and members alike, hold a
  pointer to the object at an address.
\<close>

fun holds :: "addr \<Rightarrow> handle \<Rightarrow> bool" where
  "holds a (Live pl (Some q)) = (q = a)"
| "holds a _ = False"

definition holders_of :: "addr \<Rightarrow> handle list \<Rightarrow> nat" where
  "holders_of a hs = length (filter (holds a) hs)"

definition holders :: "addr \<Rightarrow> state \<Rightarrow> nat" where
  "holders a s = holders_of a (handles s)"

text \<open>The events that a run from \<open>s\<close> to \<open>s'\<close> added to the trace.\<close>

definition events_since :: "state \<Rightarrow> state \<Rightarrow> event list" where
  "events_since s s' = drop (length (trace s)) (trace s')"

subsection \<open>Programs over handles\<close>

text \<open>
  A client program is a sequence of handle operations: the constructors, each at a
  place, the two assignments, and the end of the scope of a client variable. A
  constructor makes the next handle id. A member handle has no scope of its own: the
  destructor of its object destroys it, and a program that destroyed it beforehand would
  destroy it twice.
\<close>

datatype op =
  Default place
  | FromPtr place "addr option"
  | Copy place hid
  | Move place hid
  | CopyAssign hid hid
  | MoveAssign hid hid
  | ScopeExit hid

fun step :: "op \<Rightarrow> state \<Rightarrow> error + state" where
  "step (Default pl) s =
     (case Ref_default pl s of Inl e \<Rightarrow> Inl e | Inr (h, s1) \<Rightarrow> Inr s1)"
| "step (FromPtr pl p) s =
     (case Ref_from_ptr pl p s of Inl e \<Rightarrow> Inl e | Inr (h, s1) \<Rightarrow> Inr s1)"
| "step (Copy pl other) s =
     (case Ref_copy pl other s of Inl e \<Rightarrow> Inl e | Inr (h, s1) \<Rightarrow> Inr s1)"
| "step (Move pl other) s =
     (case Ref_move pl other s of Inl e \<Rightarrow> Inl e | Inr (h, s1) \<Rightarrow> Inr s1)"
| "step (CopyAssign this other) s = assign_copy this other s"
| "step (MoveAssign this other) s = assign_move this other s"
| "step (ScopeExit this) s =
     (case get_place this s of
        Inl e \<Rightarrow> Inl e
      | Inr Client \<Rightarrow> Ref_dtor this s
      | Inr (Member a) \<Rightarrow> Inl DestroyedTwice)"

fun run :: "op list \<Rightarrow> state \<Rightarrow> error + state" where
  "run [] s = Inr s"
| "run (x # xs) s = (case step x s of Inl e \<Rightarrow> Inl e | Inr s1 \<Rightarrow> run xs s1)"

text \<open>Whether an operation wraps the raw pointer to \<open>p\<close>, and whether a program does.\<close>

fun wraps :: "addr \<Rightarrow> op \<Rightarrow> bool" where
  "wraps p (FromPtr pl q) = (q = Some p)"
| "wraps p _ = False"

definition wrapped :: "addr \<Rightarrow> op list \<Rightarrow> bool" where
  "wrapped p xs = list_ex (wraps p) xs"

text \<open>
  The largest number of handles that hold \<open>p\<close> at one time in the course of a run: the
  maximum over the states between the operations.
\<close>

fun peak_holders :: "addr \<Rightarrow> op list \<Rightarrow> state \<Rightarrow> nat" where
  "peak_holders p [] s = holders p s"
| "peak_holders p (x # xs) s =
     max (holders p s) (case step x s of Inl e \<Rightarrow> 0 | Inr s1 \<Rightarrow> peak_holders p xs s1)"
subsection \<open>The invariant of the protocol\<close>

text \<open>
  The references to the object at \<open>p\<close> that are still to be given back while a release
  is under way: the handles that hold \<open>p\<close>, not counting the handle \<open>u\<close> whose own
  reference the release gives back, and the \<^verbatim>\<open>decRef\<close> calls on \<open>p\<close> that are due.
\<close>

definition refs_left :: "addr \<Rightarrow> hid \<Rightarrow> task list \<Rightarrow> state \<Rightarrow> nat" where
  "refs_left p u ts s = holders_of p ((handles s)[u := Gone]) + count_list ts (Release p)"

text \<open>
  The invariant for one object \<open>p\<close>, with \<open>d\<close> calls of \<^verbatim>\<open>destroy()\<close> on it before the
  start and the flag \<open>w\<close> telling whether a handle has wrapped it since. While the object
  is alive its count is the number of references left, modulo \<open>2^32\<close>, and \<^verbatim>\<open>destroy()\<close>
  has not been called; while its destructor runs, and once it is gone, no reference is
  left and \<^verbatim>\<open>destroy()\<close> has been called once. A release that destroys the very handle
  it was called from ends in undefined behaviour, and nothing is said of it.
\<close>

definition phase_ok :: "addr \<Rightarrow> bool \<Rightarrow> nat \<Rightarrow> nat \<Rightarrow> task list \<Rightarrow> state \<Rightarrow> bool" where
  "phase_ok p w d k ts s =
     (k \<le> 4294967296 \<and>
      (case heap s p of
         None \<Rightarrow> k = 0 \<and> destroy_calls p s = Suc d \<and> w \<and> Free p \<notin> set ts
       | Some obj \<Rightarrow>
           if Free p \<in> set ts
           then k = 0 \<and> destroy_calls p s = Suc d \<and> w \<and> count_list ts (Free p) = 1
           else ref_count obj = of_nat k \<and> destroy_calls p s = d \<and> (w \<longleftrightarrow> 0 < k)))"

definition exec_ok :: "addr \<Rightarrow> hid \<Rightarrow> bool \<Rightarrow> nat \<Rightarrow> task list \<Rightarrow> state \<Rightarrow> bool" where
  "exec_ok p u w d ts s =
     ((u < length (handles s) \<and> handles s ! u = Gone)
      \<or> phase_ok p w d (refs_left p u ts s) ts s)"

text \<open>Between the operations of a program: no release is under way.\<close>

definition rc_inv :: "addr \<Rightarrow> bool \<Rightarrow> nat \<Rightarrow> state \<Rightarrow> bool" where
  "rc_inv p w d s = phase_ok p w d (holders p s) [] s"

subsection \<open>Programs over the count alone\<close>

text \<open>
  \<^verbatim>\<open>incRef\<close> and \<^verbatim>\<open>decRef\<close> are public: a client can call them directly. The same program
  runs against the atomic count and against the plain one.
\<close>

datatype cop = IncRef addr | DecRef addr

fun step_atomic :: "cop \<Rightarrow> state \<Rightarrow> error + state" where
  "step_atomic (IncRef a) s = incRef a s"
| "step_atomic (DecRef a) s = decRef a s"

fun step_plain :: "cop \<Rightarrow> state \<Rightarrow> error + state" where
  "step_plain (IncRef a) s = incRef_plain a s"
| "step_plain (DecRef a) s = decRef_plain a s"

fun run_atomic :: "cop list \<Rightarrow> state \<Rightarrow> error + state" where
  "run_atomic [] s = Inr s"
| "run_atomic (x # xs) s = (case step_atomic x s of Inl e \<Rightarrow> Inl e | Inr s1 \<Rightarrow> run_atomic xs s1)"

fun run_plain :: "cop list \<Rightarrow> state \<Rightarrow> error + state" where
  "run_plain [] s = Inr s"
| "run_plain (x # xs) s = (case step_plain x s of Inl e \<Rightarrow> Inl e | Inr s1 \<Rightarrow> run_plain xs s1)"

subsection \<open>Threads on the atomic count\<close>









subsection \<open>Example states\<close>

text \<open>One object of a user class of single shape at address 0, count 0, no handle yet.\<close>

definition fresh_single :: state where
  "fresh_single = snd (allocate (Derived GCSingleObject) 0 init_state)"

text \<open>The same object wrapped by handle 0.\<close>

definition held_single :: state where
  "held_single =
     \<lparr>heap = (\<lambda>_. None)(0 \<mapsto> \<lparr>ref_count = 1, dyn_type = Derived GCSingleObject, len = 1\<rparr>),
      next_addr = 1, handles = [Live Client (Some 0)], trace = [Inc 0]\<rparr>"

text \<open>Two handles on that object, and an empty third one.\<close>

definition shared_single :: state where
  "shared_single =
     \<lparr>heap = (\<lambda>_. None)(0 \<mapsto> \<lparr>ref_count = 2, dyn_type = Derived GCSingleObject, len = 1\<rparr>),
      next_addr = 1,
      handles = [Live Client (Some 0), Live Client (Some 0), Live Client None],
      trace = [Inc 0, Inc 0]\<rparr>"


text \<open>
  A list of two nodes. The variable \<^verbatim>\<open>head\<close> is handle 0 and holds the first node, at
  address 0; the member \<^verbatim>\<open>next\<close> of the first node is handle 1 and holds the second node,
  at address 1, whose own \<^verbatim>\<open>next\<close> is the empty handle 2. Handle 3 is an empty variable.
\<close>

definition list_of_two :: state where
  "list_of_two =
     \<lparr>heap = (\<lambda>_. None)(0 \<mapsto> \<lparr>ref_count = 1, dyn_type = Derived GCSingleObject, len = 1\<rparr>,
                            1 \<mapsto> \<lparr>ref_count = 1, dyn_type = Derived GCSingleObject, len = 1\<rparr>),
      next_addr = 2,
      handles = [Live Client (Some 0), Live (Member 0) (Some 1), Live (Member 1) None,
                 Live Client None],
      trace = [Inc 0, Inc 1]\<rparr>"

text \<open>
  A client program on the object of \<open>fresh_single\<close> that uses every operation: handle 0
  wraps the pointer, handle 1 starts empty and is copy-assigned from 0, handle 2 is
  move-constructed from 1, handle 1 is move-assigned from 2, and handle 0 leaves scope.
  Then the other two handles leave scope, the holder first.
\<close>

definition demo_share :: "op list" where
  "demo_share =
     [FromPtr Client (Some 0), Default Client, CopyAssign 1 0, Move Client 1, MoveAssign 1 2,
      ScopeExit 0]"

definition demo_release :: "op list" where
  "demo_release = [ScopeExit 1, ScopeExit 2]"

text \<open>
  The state in which \<open>2^32\<close> copies of handle 0 exist and handle 0 has left scope: the
  object is gone, the copies still hold its address.
\<close>

definition wrapped_count :: state where
  "wrapped_count =
     fresh_single
       \<lparr>heap := (heap fresh_single)(0 := None),
        handles := Gone # replicate 4294967296 (Live Client (Some 0)),
        trace := Inc 0 # replicate 4294967296 (Inc 0)
                   @ [Dec 0, Destroy 0 GCSingleObject, Dtor 0 0]\<rparr>"

section \<open>The count operations in the shape of the source\<close>

text \<open>
  What \<^verbatim>\<open>destroy()\<close> does before the member handles are released: one call is recorded,
  the element destructors run, the member handles are gone, the heap is as it was.
\<close>

lemma begin_destroy_Inr:
  assumes "begin_destroy a obj s = Inr (ts, s1)"
  shows "ts = map Release (member_ptrs a (handles s)) @ [Free a]
       \<and> handles s1 = drop_members a (handles s)
       \<and> heap s1 = heap s \<and> next_addr s1 = next_addr s
       \<and> (\<exists>es. trace s1 = trace s @ Destroy a (shape_of (dyn_type obj)) # es
              \<and> (\<forall>e \<in> set es. \<exists>i. e = Dtor a i))"
  using assms
  by (auto simp: begin_destroy_def delete_scalar_def delete_array_def destroy_members_def
      split: gc_class.splits if_splits)

text \<open>
  \<^verbatim>\<open>decRef\<close> as the source writes it: \<^verbatim>\<open>fetch_sub\<close>, and \<^verbatim>\<open>destroy()\<close> if the value read
  was 1.
\<close>

lemma decRef_unfold:
  "decRef a s =
     (case heap s a of
        None \<Rightarrow> Inl DanglingPointer
      | Some obj \<Rightarrow>
          (let (old, new) = fetch_sub (ref_count obj) 1;
               s1 = s\<lparr>heap := (heap s)(a \<mapsto> obj\<lparr>ref_count := new\<rparr>),
                      trace := trace s @ [Dec a]\<rparr>
           in if old = 1 then destroy a s1 else Inr s1))"
  by (auto simp: decRef_def destroy_def Let_def split: option.splits sum.splits prod.splits)

lemma dec_count_Inr:
  assumes "dec_count v c = Inr (new, zero)"
  shows "new = c - 1 \<and> (zero \<longleftrightarrow> c = 1)"
  using assms by (cases v) (auto simp: fetch_sub_def Let_def split: if_splits)

lemma drop_members_nth:
  assumes "i < length hs"
  shows "drop_members a hs ! i = drop_member a (hs ! i)"
  using assms by (simp add: drop_members_def)

lemma drop_member_cases:
  "drop_member a h = h \<or> (drop_member a h = Gone \<and> (\<exists>q. h = Live (Member a) q))"
  by (cases "(a, h)" rule: drop_member.cases) auto

text \<open>
  A release never makes or revives a handle, never touches a variable of the client,
  and only adds to the trace.
\<close>

lemma exec_shape:
  assumes "exec v ts s = Inr s'"
  shows "length (handles s') = length (handles s) \<and> next_addr s' = next_addr s
       \<and> (\<forall>i < length (handles s). handles s' ! i = handles s ! i \<or> handles s' ! i = Gone)
       \<and> (\<forall>i < length (handles s). \<forall>q. handles s ! i = Live Client q
              \<longrightarrow> handles s' ! i = Live Client q)
       \<and> (\<exists>es. trace s' = trace s @ es)"
  using assms
proof (induction v ts s arbitrary: s' rule: exec.induct)
  case (1 v s)
  then show ?case by simp
next
  case (2 v a ts s)
  from "2.prems" have "exec v ts (s\<lparr>heap := (heap s)(a := None)\<rparr>) = Inr s'" by simp
  from "2.IH" [OF this] show ?case by simp
next
  case (3 v a ts s)
  from "3.prems" obtain obj new zero where
    obj: "heap s a = Some obj" and dc: "dec_count v (ref_count obj) = Inr (new, zero)"
    by (auto split: option.splits sum.splits)
  let ?s1 = "s\<lparr>heap := (heap s)(a \<mapsto> obj\<lparr>ref_count := new\<rparr>), trace := trace s @ [Dec a]\<rparr>"
  show ?case
  proof (cases zero)
    case True
    with "3.prems" obj dc have nf: "Free a \<notin> set ts"
      by (auto split: if_splits)
    with True "3.prems" obj dc obtain ts' s2 where
      bd: "begin_destroy a (obj\<lparr>ref_count := new\<rparr>) ?s1 = Inr (ts', s2)"
      and ex: "exec v (ts' @ ts) s2 = Inr s'"
      by (auto split: sum.splits)
    note ih = "3.IH"(1) [OF obj dc refl True nf bd refl ex]
    from begin_destroy_Inr [OF bd] obtain es where
      h2: "handles s2 = drop_members a (handles s)" and n2: "next_addr s2 = next_addr s"
      and t2: "trace s2 = trace s @ Dec a # Destroy a (shape_of (dyn_type obj)) # es"
      by auto
    have l2: "length (handles s2) = length (handles s)" by (simp add: h2 drop_members_def)
    have p2: "handles s2 ! i = handles s ! i \<or> handles s2 ! i = Gone"
      if "i < length (handles s)" for i
      using drop_member_cases [of a "handles s ! i"] that by (auto simp: h2 drop_members_nth)
    have c2: "handles s2 ! i = Live Client q"
      if "i < length (handles s)" "handles s ! i = Live Client q" for i q
      using that by (simp add: h2 drop_members_nth)
    from ih l2 n2 t2 p2 c2 show ?thesis
      by (auto simp: l2) metis+
  next
    case False
    with "3.prems" obj dc have ex: "exec v ts ?s1 = Inr s'" by simp
    from "3.IH"(2) [OF obj dc refl False ex] show ?thesis by auto
  qed
qed

section \<open>Counting holders\<close>

lemma holders_of_Cons: "holders_of p (h # hs) = (if holds p h then 1 else 0) + holders_of p hs"
  by (simp add: holders_of_def)

lemma holders_of_Nil: "holders_of p [] = 0"
  by (simp add: holders_of_def)

lemma holders_of_append: "holders_of p (hs @ hs') = holders_of p hs + holders_of p hs'"
  by (simp add: holders_of_def)

lemma holders_of_update:
  assumes "i < length hs"
  shows "holders_of p (hs[i := h]) + (if holds p (hs ! i) then 1 else 0)
       = holders_of p hs + (if holds p h then 1 else 0)"
  using assms
proof (induction hs arbitrary: i)
  case Nil
  then show ?case by simp
next
  case (Cons x xs)
  show ?case
  proof (cases i)
    case 0
    then show ?thesis by (simp add: holders_of_Cons)
  next
    case (Suc j)
    with Cons.prems have "j < length xs" by simp
    from Cons.IH [OF this] Suc show ?thesis by (simp add: holders_of_Cons)
  qed
qed

lemma member_ptrs_Cons:
  "count_list (member_ptrs a (h # hs)) p
     = (if member_ptr a h = Some p then 1 else 0) + count_list (member_ptrs a hs) p"
  by (cases "member_ptr a h") (simp_all add: member_ptrs_def map_filter_simps)

lemma members_hold:
  "holders_of p (drop_members a hs) + count_list (member_ptrs a hs) p = holders_of p hs"
proof (induction hs)
  case Nil
  show ?case by (simp add: drop_members_def member_ptrs_def holders_of_def map_filter_simps)
next
  case (Cons h hs)
  have "(if holds p (drop_member a h) then 1 else 0) + (if member_ptr a h = Some p then 1 else 0)
      = (if holds p h then 1 else (0::nat))"
  proof (cases h)
    case (Live pl q)
    then show ?thesis by (cases pl; cases q) auto
  next
    case Gone
    then show ?thesis by simp
  qed
  with Cons.IH show ?case
    by (simp add: member_ptrs_Cons holders_of_Cons drop_members_def)
qed

lemma drop_members_update_Gone:
  "drop_members a (hs[u := Gone]) = (drop_members a hs)[u := Gone]"
  by (simp add: drop_members_def map_update)

lemma member_ptrs_update_Gone:
  assumes "u < length hs \<longrightarrow> member_ptr a (hs ! u) = None"
  shows "member_ptrs a (hs[u := Gone]) = member_ptrs a hs"
proof -
  have "List.map_filter (member_ptr a) (hs[u := Gone]) = List.map_filter (member_ptr a) hs"
    using assms
  proof (induction hs arbitrary: u)
    case Nil
    show ?case by simp
  next
    case (Cons h hs)
    show ?case
    proof (cases u)
      case 0
      with Cons.prems show ?thesis by (simp add: map_filter_simps)
    next
      case (Suc j)
      with Cons.prems have "j < length hs \<longrightarrow> member_ptr a (hs ! j) = None" by simp
      from Cons.IH [OF this] Suc show ?thesis
        by (cases "member_ptr a h") (simp_all add: map_filter_simps)
    qed
  qed
  then show ?thesis by (simp add: member_ptrs_def)
qed

lemma count_list_map_Release:
  "count_list (map Release qs) (Release p) = count_list qs p"
  by (induction qs) simp_all

lemma count_list_map_Release_Free:
  "count_list (map Release qs) (Free p) = 0"
  by (induction qs) simp_all

lemma Free_notin_map_Release: "Free p \<notin> set (map Release qs)"
  by auto

lemma word32_of_nat_eq_1:
  assumes "k \<le> 4294967296"
  shows "(of_nat k :: 32 word) = 1 \<longleftrightarrow> k = 1"
proof (cases "k = 4294967296")
  case True
  then show ?thesis by simp
next
  case False
  with assms have "k < 2 ^ LENGTH(32)" by simp
  then have "unat (of_nat k :: 32 word) = k" by (simp add: unat_of_nat)
  then show ?thesis
    by (metis unat_1 of_nat_1)
qed

lemma word32_of_nat_pred:
  assumes "0 < k"
  shows "(of_nat k :: 32 word) - 1 = of_nat (k - 1)"
  using assms by (cases k) simp_all

lemma destroy_calls_begin:
  assumes "begin_destroy a obj s = Inr (ts, s1)"
  shows "destroy_calls p s1 = destroy_calls p s + (if a = p then 1 else 0)"
proof -
  from begin_destroy_Inr [OF assms] obtain es where
    t: "trace s1 = trace s @ Destroy a (shape_of (dyn_type obj)) # es"
    and es: "\<forall>e \<in> set es. \<exists>i. e = Dtor a i"
    by auto
  from es have "filter (is_destroy_of p) es = []"
    by (auto simp: filter_empty_conv)
  with t show ?thesis by (auto simp: destroy_calls_def)
qed

section \<open>A release keeps the invariant\<close>

lemma exec_ok_doomed:
  assumes "u < length (handles s)" and "handles s ! u = Gone"
  shows "exec_ok p u w d ts s"
  using assms by (simp add: exec_ok_def)

text \<open>
  The steps of a release keep the invariant of the object \<open>p\<close>, whatever else is torn
  down on the way.
\<close>

lemma exec_keeps:
  assumes "exec v ts s = Inr s'" and "exec_ok p u w d ts s"
  shows "exec_ok p u w d [] s'"
  using assms
proof (induction v ts s arbitrary: s' rule: exec.induct)
  case (1 v s)
  then show ?case by (simp add: exec_ok_def phase_ok_def refs_left_def)
next
  case (2 v a ts s)
  let ?s1 = "s\<lparr>heap := (heap s)(a := None)\<rparr>"
  from "2.prems"(1) have ex: "exec v ts ?s1 = Inr s'" by simp
  have "exec_ok p u w d ts ?s1"
    using "2.prems"(2)
    by (auto simp: exec_ok_def phase_ok_def refs_left_def destroy_calls_def count_list_0_iff
        split: option.splits if_splits)
  from "2.IH" [OF ex this] show ?case .
next
  case (3 v a ts s)
  from "3.prems"(1) obtain obj new zero where
    obj: "heap s a = Some obj" and dc: "dec_count v (ref_count obj) = Inr (new, zero)"
    by (auto split: option.splits sum.splits)
  from dec_count_Inr [OF dc] have new: "new = ref_count obj - 1"
    and zero: "zero \<longleftrightarrow> ref_count obj = 1" by simp_all
  let ?s1 = "s\<lparr>heap := (heap s)(a \<mapsto> obj\<lparr>ref_count := new\<rparr>), trace := trace s @ [Dec a]\<rparr>"
  let ?K = "refs_left p u (Release a # ts) s"
  have dc1: "destroy_calls p ?s1 = destroy_calls p s" by (simp add: destroy_calls_def)
  show ?case
  proof (cases "u < length (handles s) \<and> handles s ! u = Gone")
    case True
    show ?thesis
    proof (cases zero)
      case z: True
      with "3.prems"(1) obj dc have nf: "Free a \<notin> set ts"
        by (auto split: if_splits)
      with z "3.prems"(1) obj dc obtain ts' s2 where
        bd: "begin_destroy a (obj\<lparr>ref_count := new\<rparr>) ?s1 = Inr (ts', s2)"
        and ex: "exec v (ts' @ ts) s2 = Inr s'"
        by (auto split: sum.splits)
      from begin_destroy_Inr [OF bd] have h2: "handles s2 = drop_members a (handles s)" by simp
      from True have "u < length (handles s2) \<and> handles s2 ! u = Gone"
        by (simp add: h2 drop_members_def)
      then have "exec_ok p u w d (ts' @ ts) s2" by (simp add: exec_ok_def)
      from "3.IH"(1) [OF obj dc refl z nf bd refl ex this] show ?thesis .
    next
      case z: False
      with "3.prems"(1) obj dc have ex: "exec v ts ?s1 = Inr s'" by simp
      from True have "exec_ok p u w d ts ?s1" by (simp add: exec_ok_def)
      from "3.IH"(2) [OF obj dc refl z ex this] show ?thesis .
    qed
  next
    case False
    with "3.prems"(2) have ph: "phase_ok p w d ?K (Release a # ts) s"
      by (auto simp: exec_ok_def)
    then have bound: "?K \<le> 4294967296" by (simp add: phase_ok_def)
    have alive: "ref_count obj = of_nat ?K \<and> destroy_calls p s = d \<and> w \<and> 0 < ?K
        \<and> Free p \<notin> set ts" if "a = p"
    proof -
      have "0 < ?K" using that by (simp add: refs_left_def)
      with ph obj that show ?thesis
        by (auto simp: phase_ok_def split: if_splits)
    qed
    show ?thesis
    proof (cases zero)
      case z: False
      with "3.prems"(1) obj dc have ex: "exec v ts ?s1 = Inr s'" by simp
      have k1: "refs_left p u ts ?s1 + (if a = p then 1 else 0) = ?K"
        by (simp add: refs_left_def)
      have "phase_ok p w d (refs_left p u ts ?s1) ts ?s1"
      proof (cases "a = p")
        case True
        note al = alive [OF True]
        from z zero al have "?K \<noteq> 1"
          by (auto simp: word32_of_nat_eq_1 [OF bound])
        with al have k2: "1 < ?K" by simp
        from k1 True have k3: "refs_left p u ts ?s1 = ?K - 1" by simp
        from al new have "new = of_nat ?K - 1" by simp
        also from al have "\<dots> = of_nat (?K - 1)" by (intro word32_of_nat_pred) simp
        finally have "new = of_nat (?K - 1)" .
        with al k2 k3 bound True obj show ?thesis
          by (auto simp: phase_ok_def destroy_calls_def)
      next
        case False
        with k1 have "refs_left p u ts ?s1 = ?K" by simp
        with ph False show ?thesis
          by (auto simp: phase_ok_def dc1 split: option.splits if_splits)
      qed
      then have "exec_ok p u w d ts ?s1" by (simp add: exec_ok_def)
      from "3.IH"(2) [OF obj dc refl z ex this] show ?thesis .
    next
      case z: True
      with "3.prems"(1) obj dc have nf: "Free a \<notin> set ts"
        by (auto split: if_splits)
      with z "3.prems"(1) obj dc obtain ts' s2 where
        bd: "begin_destroy a (obj\<lparr>ref_count := new\<rparr>) ?s1 = Inr (ts', s2)"
        and ex: "exec v (ts' @ ts) s2 = Inr s'"
        by (auto split: sum.splits)
      from begin_destroy_Inr [OF bd] have
        ts': "ts' = map Release (member_ptrs a (handles s)) @ [Free a]"
        and h2: "handles s2 = drop_members a (handles s)"
        and hp2: "heap s2 = heap ?s1"
        by simp_all
      from destroy_calls_begin [OF bd, of p] dc1
      have dc2: "destroy_calls p s2 = destroy_calls p s + (if a = p then 1 else 0)" by simp
      have "exec_ok p u w d (ts' @ ts) s2"
      proof (cases "u < length (handles s) \<and> (\<exists>q. handles s ! u = Live (Member a) q)")
        case True
        then have "u < length (handles s2) \<and> handles s2 ! u = Gone"
          by (auto simp: h2 drop_members_def)
        then show ?thesis by (simp add: exec_ok_def)
      next
        case nm: False
        have "u < length (handles s) \<longrightarrow> member_ptr a (handles s ! u) = None"
        proof
          assume "u < length (handles s)"
          with nm have "\<not> (\<exists>q. handles s ! u = Live (Member a) q)" by simp
          then show "member_ptr a (handles s ! u) = None"
            by (cases "(a, handles s ! u)" rule: member_ptr.cases) auto
        qed
        from member_ptrs_update_Gone [OF this]
        have mp: "member_ptrs a ((handles s)[u := Gone]) = member_ptrs a (handles s)" .
        from members_hold [of p a "(handles s)[u := Gone]"]
        have "holders_of p ((handles s2)[u := Gone]) + count_list (member_ptrs a (handles s)) p
            = holders_of p ((handles s)[u := Gone])"
          by (simp add: h2 drop_members_update_Gone mp)
        then have k1: "refs_left p u (ts' @ ts) s2 + (if a = p then 1 else 0) = ?K"
          by (auto simp: refs_left_def ts' count_list_map_Release)
        have "phase_ok p w d (refs_left p u (ts' @ ts) s2) (ts' @ ts) s2"
        proof (cases "a = p")
          case True
          note al = alive [OF True]
          from z zero al have "?K = 1"
            by (auto simp: word32_of_nat_eq_1 [OF bound])
          with k1 True have k3: "refs_left p u (ts' @ ts) s2 = 0" by simp
          have fr: "count_list (ts' @ ts) (Free p) = 1"
            using al True by (simp add: ts' count_list_map_Release_Free count_list_0_iff)
          from k3 fr al True obj dc2 show ?thesis
            by (auto simp: phase_ok_def hp2 ts')
        next
          case False
          with k1 have k3: "refs_left p u (ts' @ ts) s2 = ?K" by simp
          have fr: "Free p \<in> set (ts' @ ts) \<longleftrightarrow> Free p \<in> set (Release a # ts)"
            "count_list (ts' @ ts) (Free p) = count_list (Release a # ts) (Free p)"
            using False by (auto simp: ts' count_list_map_Release_Free)
          from ph False show ?thesis
            unfolding phase_ok_def k3 fr
            by (auto simp: hp2 dc2 split: option.splits if_splits)
        qed
        then show ?thesis by (simp add: exec_ok_def)
      qed
      from "3.IH"(1) [OF obj dc refl z nf bd refl ex this] show ?thesis .
    qed
  qed
qed

section \<open>The handle operations keep the invariant\<close>

lemma destroy_calls_handles [simp]:
  "destroy_calls p (s\<lparr>handles := hs\<rparr>) = destroy_calls p s"
  by (simp add: destroy_calls_def)

lemma phase_ok_handles [simp]:
  "phase_ok p w d k ts (s\<lparr>handles := hs\<rparr>) = phase_ok p w d k ts s"
  by (simp add: phase_ok_def cong: option.case_cong)

lemma holders_of_without:
  assumes "u < length hs"
  shows "holders_of p (hs[u := Gone]) + (if holds p (hs ! u) then 1 else 0) = holders_of p hs"
  using holders_of_update [OF assms, of p Gone] by simp

lemma holders_of_put:
  assumes "u < length hs"
  shows "holders_of p (hs[u := h]) = holders_of p (hs[u := Gone]) + (if holds p h then 1 else 0)"
proof -
  have "u < length (hs[u := Gone])" using assms by simp
  from holders_of_update [OF this, of p h] assms show ?thesis by simp
qed

lemma decRef_shape:
  assumes "if_ptr_decRef q s = Inr s1"
  shows "length (handles s1) = length (handles s)
       \<and> (\<forall>i < length (handles s). handles s1 ! i = handles s ! i \<or> handles s1 ! i = Gone)
       \<and> (\<forall>i < length (handles s). \<forall>r. handles s ! i = Live Client r
              \<longrightarrow> handles s1 ! i = Live Client r)"
proof (cases q)
  case None
  with assms show ?thesis by (simp add: if_ptr_decRef_def)
next
  case (Some a)
  with assms have "exec Atomic [Release a] s = Inr s1"
    by (simp add: if_ptr_decRef_def decRef_def)
  from exec_shape [OF this] show ?thesis by blast
qed

lemma release_keeps:
  assumes inv: "rc_inv p w d s"
      and u: "u < length (handles s)" "handles s ! u = Live pl q"
      and rel: "if_ptr_decRef q s = Inr s1"
      and live: "handles s1 ! u \<noteq> Gone"
  shows "phase_ok p w d (holders_of p ((handles s1)[u := Gone])) [] s1"
proof -
  have ok: "exec_ok p u w d [] s1"
  proof (cases q)
    case None
    with rel have s1: "s1 = s" by (simp add: if_ptr_decRef_def)
    from holders_of_without [OF u(1), of p] u(2) None
    have "refs_left p u [] s = holders p s" by (simp add: refs_left_def holders_def)
    with inv show ?thesis by (simp add: s1 exec_ok_def rc_inv_def)
  next
    case (Some a)
    with rel have ex: "exec Atomic [Release a] s = Inr s1"
      by (simp add: if_ptr_decRef_def decRef_def)
    from holders_of_without [OF u(1), of p] u(2) Some
    have "refs_left p u [Release a] s = holders p s"
      by (auto simp: refs_left_def holders_def)
    with inv have "exec_ok p u w d [Release a] s"
      by (auto simp: exec_ok_def rc_inv_def phase_ok_def split: option.splits)
    from exec_keeps [OF ex this] show ?thesis .
  qed
  from decRef_shape [OF rel] u(1) have "u < length (handles s1)" by simp
  with ok live show ?thesis by (simp add: exec_ok_def refs_left_def)
qed

lemma rc_inv_held:
  assumes "rc_inv p w d s" and "h < length (handles s)" and "handles s ! h = Live pl (Some p)"
  shows "w \<and> heap s p \<noteq> None"
proof -
  from assms(2,3) have "holds p (handles s ! h)" by simp
  with nth_mem [OF assms(2)] have "0 < holders p s"
    by (auto simp: holders_def holders_of_def filter_empty_conv)
  with assms(1) show ?thesis
    by (auto simp: rc_inv_def phase_ok_def split: option.splits)
qed

lemma acquire_keeps:
  assumes ph: "phase_ok p w d k [] s"
      and acq: "if_ptr_incRef r s = Inr s'"
      and k: "holders p s = k + (if r = Some p then 1 else 0)"
      and bound: "holders p s' \<le> 4294967296"
  shows "rc_inv p (w \<or> r = Some p) d s'"
proof (cases r)
  case None
  with acq have "s' = s" by (simp add: if_ptr_incRef_def)
  with ph k None show ?thesis by (simp add: rc_inv_def)
next
  case (Some a)
  with acq obtain oa where oa: "heap s a = Some oa"
    and s': "s' = s\<lparr>heap := (heap s)(a \<mapsto> oa\<lparr>ref_count := ref_count oa + 1\<rparr>),
                    trace := trace s @ [Inc a]\<rparr>"
    by (auto simp: if_ptr_incRef_def incRef_def fetch_add_def split: option.splits)
  have h': "holders p s' = holders p s" by (simp add: s' holders_def)
  have dc: "destroy_calls p s' = destroy_calls p s" by (simp add: s' destroy_calls_def)
  show ?thesis
  proof (cases "a = p")
    case True
    with ph oa have "ref_count oa = of_nat k" and "destroy_calls p s = d"
      by (simp_all add: phase_ok_def)
    with True Some k h' dc bound oa show ?thesis
      by (simp add: rc_inv_def phase_ok_def s')
  next
    case False
    with ph Some k h' dc show ?thesis
      by (auto simp: rc_inv_def phase_ok_def s' split: option.splits)
  qed
qed

lemma rc_inv_phase:
  assumes "rc_inv p w d s"
  shows "phase_ok p w d (holders p s) [] s"
  using assms by (simp add: rc_inv_def)

lemma holds_Live [simp]: "holds p (Live pl r) \<longleftrightarrow> r = Some p"
  by (cases r) auto

lemma holders_new_handle:
  "holders p (s\<lparr>handles := handles s @ [h]\<rparr>) = holders p s + (if holds p h then 1 else 0)"
  by (simp add: holders_def holders_of_def)

lemma acquire_new:
  assumes inv: "rc_inv p w d s"
      and acq: "if_ptr_incRef r (snd (new_handle pl r s)) = Inr s'"
      and bound: "holders p s' \<le> 4294967296"
  shows "rc_inv p (w \<or> r = Some p) d s'"
proof -
  let ?s1 = "s\<lparr>handles := handles s @ [Live pl r]\<rparr>"
  from acq have a: "if_ptr_incRef r ?s1 = Inr s'" by (simp add: new_handle_def)
  have ph: "phase_ok p w d (holders p s) [] ?s1"
    using rc_inv_phase [OF inv] by simp
  have k: "holders p ?s1 = holders p s + (if r = Some p then 1 else 0)"
    by (auto simp: holders_new_handle)
  from acquire_keeps [OF ph a k bound] show ?thesis .
qed

lemma step_Default:
  assumes "rc_inv p w d s" and "step (Default pl) s = Inr s'"
  shows "rc_inv p w d s'"
proof -
  from assms(2) have s': "s' = s\<lparr>handles := handles s @ [Live pl None]\<rparr>"
    by (auto simp: Ref_default_def new_handle_def split: if_splits)
  have "holders p s' = holders p s" by (simp add: s' holders_new_handle)
  with rc_inv_phase [OF assms(1)] show ?thesis by (simp add: rc_inv_def s')
qed

lemma step_FromPtr:
  assumes "rc_inv p w d s" and "step (FromPtr pl r) s = Inr s'"
      and "holders p s' \<le> 4294967296"
  shows "rc_inv p (w \<or> r = Some p) d s'"
proof -
  from assms(2) have "if_ptr_incRef r (snd (new_handle pl r s)) = Inr s'"
    by (auto simp: Ref_from_ptr_def split: prod.splits sum.splits if_splits)
  from acquire_new [OF assms(1) this assms(3)] show ?thesis .
qed

lemma get_ptr_Inr:
  "get_ptr h s = Inr r \<longleftrightarrow> h < length (handles s) \<and> (\<exists>pl. handles s ! h = Live pl r)"
  by (auto simp: get_ptr_def split: handle.splits)

lemma set_ptr_Inr:
  "set_ptr h r s = Inr s' \<longleftrightarrow>
     h < length (handles s) \<and> (\<exists>pl q. handles s ! h = Live pl q
        \<and> s' = s\<lparr>handles := (handles s)[h := Live pl r]\<rparr>)"
  by (auto simp: set_ptr_def split: handle.splits)

lemma step_Copy:
  assumes "rc_inv p w d s" and "step (Copy pl h) s = Inr s'"
      and "holders p s' \<le> 4294967296"
  shows "rc_inv p w d s'"
proof -
  from assms(2) obtain r where r: "get_ptr h s = Inr r"
    and "if_ptr_incRef r (snd (new_handle pl r s)) = Inr s'"
    by (auto simp: Ref_copy_def split: prod.splits sum.splits if_splits)
  from acquire_new [OF assms(1) this(2) assms(3)]
  have *: "rc_inv p (w \<or> r = Some p) d s'" .
  have "r = Some p \<longrightarrow> w"
    using rc_inv_held [OF assms(1), of h] r by (auto simp: get_ptr_Inr)
  then have "(w \<or> r = Some p) = w" by auto
  with * show ?thesis by simp
qed

lemma step_Move:
  assumes inv: "rc_inv p w d s" and st: "step (Move pl h) s = Inr s'"
  shows "rc_inv p w d s'"
proof -
  from st obtain r s2 where r: "get_ptr h s = Inr r"
    and sp: "set_ptr h None (s\<lparr>handles := handles s @ [Live pl r]\<rparr>) = Inr s'"
    by (auto simp: Ref_move_def new_handle_def split: prod.splits sum.splits if_splits)
  from r obtain plh where hl: "h < length (handles s)" and hr: "handles s ! h = Live plh r"
    by (auto simp: get_ptr_Inr)
  from sp hl hr have s': "s' = s\<lparr>handles := (handles s @ [Live pl r])[h := Live plh None]\<rparr>"
    by (auto simp: set_ptr_Inr nth_append)
  have "(handles s @ [Live pl r])[h := Live plh None] = (handles s)[h := Live plh None] @ [Live pl r]"
    using hl by (simp add: list_update_append1)
  then have "holders p s' = holders_of p ((handles s)[h := Live plh None])
      + (if r = Some p then 1 else 0)"
    by (auto simp: s' holders_def holders_of_append holders_of_def)
  moreover from holders_of_update [OF hl, of p "Live plh None"] hr
  have "holders_of p ((handles s)[h := Live plh None]) + (if r = Some p then 1 else 0)
      = holders p s"
    by (auto simp: holders_def)
  ultimately have "holders p s' = holders p s" by simp
  with rc_inv_phase [OF inv] show ?thesis by (simp add: rc_inv_def s')
qed

lemma get_place_Inr:
  "get_place h s = Inr pl \<longleftrightarrow> h < length (handles s) \<and> (\<exists>q. handles s ! h = Live pl q)"
  by (auto simp: get_place_def split: handle.splits)

lemma step_ScopeExit:
  assumes inv: "rc_inv p w d s" and st: "step (ScopeExit u) s = Inr s'"
  shows "rc_inv p w d s'"
proof -
  from st have pl: "get_place u s = Inr Client" and dt: "Ref_dtor u s = Inr s'"
    by (auto split: sum.splits place.splits)
  from pl obtain q where ul: "u < length (handles s)" and uq: "handles s ! u = Live Client q"
    by (auto simp: get_place_Inr)
  from dt ul uq obtain s1 where rel: "if_ptr_decRef q s = Inr s1"
    and s': "s' = s1\<lparr>handles := (handles s1)[u := Gone]\<rparr>"
    by (auto simp: Ref_dtor_def get_ptr_def split: sum.splits)
  from decRef_shape [OF rel] ul uq have "handles s1 ! u = Live Client q" by blast
  then have "handles s1 ! u \<noteq> Gone" by simp
  from release_keeps [OF inv ul uq rel this]
  show ?thesis by (simp add: rc_inv_def s' holders_def)
qed

lemma step_CopyAssign:
  assumes inv: "rc_inv p w d s" and st: "step (CopyAssign u h) s = Inr s'"
      and bound: "holders p s' \<le> 4294967296"
  shows "rc_inv p w d s'"
proof (cases "u = h")
  case True
  with st have "s' = s" by (auto simp: assign_copy_def split: sum.splits)
  with inv show ?thesis by simp
next
  case False
  with st obtain q s1 r s2 where q: "get_ptr u s = Inr q"
    and rel: "if_ptr_decRef q s = Inr s1"
    and r: "get_ptr h s1 = Inr r"
    and sp: "set_ptr u r s1 = Inr s2"
    and acq: "if_ptr_incRef r s2 = Inr s'"
    by (auto simp: assign_copy_def split: sum.splits)
  from q obtain pl where ul: "u < length (handles s)" and uq: "handles s ! u = Live pl q"
    by (auto simp: get_ptr_Inr)
  from sp obtain pl1 q1 where ul1: "u < length (handles s1)"
    and u1: "handles s1 ! u = Live pl1 q1"
    and s2: "s2 = s1\<lparr>handles := (handles s1)[u := Live pl1 r]\<rparr>"
    by (auto simp: set_ptr_Inr)
  from u1 have "handles s1 ! u \<noteq> Gone" by simp
  from release_keeps [OF inv ul uq rel this]
  have ph: "phase_ok p w d (holders_of p ((handles s1)[u := Gone])) [] s2"
    by (simp add: s2)
  have k: "holders p s2 = holders_of p ((handles s1)[u := Gone]) + (if r = Some p then 1 else 0)"
    using holders_of_put [OF ul1, of p "Live pl1 r"] by (auto simp: s2 holders_def)
  from acquire_keeps [OF ph acq k bound]
  have *: "rc_inv p (w \<or> r = Some p) d s'" .
  have "r = Some p \<longrightarrow> w"
  proof
    assume rp: "r = Some p"
    from r obtain plh where hl1: "h < length (handles s1)"
      and h1: "handles s1 ! h = Live plh r"
      by (auto simp: get_ptr_Inr)
    from decRef_shape [OF rel] hl1 h1 have "h < length (handles s)"
      and "handles s ! h = Live plh r"
      by auto
    with rc_inv_held [OF inv, of h plh] rp show w by simp
  qed
  then have "(w \<or> r = Some p) = w" by auto
  with * show ?thesis by simp
qed

lemma step_MoveAssign:
  assumes inv: "rc_inv p w d s" and st: "step (MoveAssign u h) s = Inr s'"
  shows "rc_inv p w d s'"
proof (cases "u = h")
  case True
  with st have "s' = s" by (auto simp: assign_move_def split: sum.splits)
  with inv show ?thesis by simp
next
  case False
  with st obtain q s1 r s2 where q: "get_ptr u s = Inr q"
    and rel: "if_ptr_decRef q s = Inr s1"
    and r: "get_ptr h s1 = Inr r"
    and sp: "set_ptr u r s1 = Inr s2"
    and sh: "set_ptr h None s2 = Inr s'"
    by (auto simp: assign_move_def split: sum.splits)
  from q obtain pl where ul: "u < length (handles s)" and uq: "handles s ! u = Live pl q"
    by (auto simp: get_ptr_Inr)
  from sp obtain pl1 q1 where ul1: "u < length (handles s1)"
    and u1: "handles s1 ! u = Live pl1 q1"
    and s2: "s2 = s1\<lparr>handles := (handles s1)[u := Live pl1 r]\<rparr>"
    by (auto simp: set_ptr_Inr)
  from r obtain plh where hl1: "h < length (handles s1)"
    and h1: "handles s1 ! h = Live plh r"
    by (auto simp: get_ptr_Inr)
  from sh False h1 hl1 have s': "s' = s1\<lparr>handles := (handles s1)[u := Live pl1 r, h := Live plh None]\<rparr>"
    by (auto simp: set_ptr_Inr s2)
  from u1 have "handles s1 ! u \<noteq> Gone" by simp
  from release_keeps [OF inv ul uq rel this]
  have ph: "phase_ok p w d (holders_of p ((handles s1)[u := Gone])) [] s'"
    by (simp add: s')
  let ?B = "(handles s1)[u := Live pl1 r]"
  have b: "holders_of p ?B = holders_of p ((handles s1)[u := Gone]) + (if r = Some p then 1 else 0)"
    using holders_of_put [OF ul1, of p "Live pl1 r"] by auto
  have hb: "h < length ?B" using hl1 by simp
  from holders_of_update [OF hb, of p "Live plh None"] False h1
  have "holders_of p (?B[h := Live plh None]) + (if r = Some p then 1 else 0) = holders_of p ?B"
    by (auto simp: nth_list_update)
  with b have "holders p s' = holders_of p ((handles s1)[u := Gone])"
    by (simp add: s' holders_def)
  with ph show ?thesis by (simp add: rc_inv_def)
qed

text \<open>Every handle operation keeps the invariant, and so does every program.\<close>

lemma step_inv:
  assumes "rc_inv p w d s" and "step x s = Inr s'" and "holders p s' \<le> 4294967296"
  shows "rc_inv p (w \<or> wraps p x) d s'"
proof (cases x)
  case (Default pl)
  with step_Default [OF assms(1), of pl s'] assms(2) show ?thesis by simp
next
  case (FromPtr pl r)
  with step_FromPtr [OF assms(1), of pl r s'] assms(2,3) show ?thesis by simp
next
  case (Copy pl h)
  with step_Copy [OF assms(1), of pl h s'] assms(2,3) show ?thesis by simp
next
  case (Move pl h)
  with step_Move [OF assms(1), of pl h s'] assms(2) show ?thesis by simp
next
  case (CopyAssign u h)
  with step_CopyAssign [OF assms(1), of u h s'] assms(2,3) show ?thesis by simp
next
  case (MoveAssign u h)
  with step_MoveAssign [OF assms(1), of u h s'] assms(2) show ?thesis by simp
next
  case (ScopeExit u)
  with step_ScopeExit [OF assms(1), of u s'] assms(2) show ?thesis by simp
qed

lemma holders_le_peak: "holders p s \<le> peak_holders p xs s"
  by (cases xs) simp_all

lemma run_inv:
  assumes "rc_inv p w d s" and "peak_holders p xs s \<le> 4294967296" and "run xs s = Inr s'"
  shows "rc_inv p (w \<or> wrapped p xs) d s'"
  using assms
proof (induction xs arbitrary: s w)
  case Nil
  then show ?case by (simp add: wrapped_def)
next
  case (Cons x xs)
  from Cons.prems(3) obtain s1 where s1: "step x s = Inr s1" and r: "run xs s1 = Inr s'"
    by (auto split: sum.splits)
  from Cons.prems(2) s1 have pk: "peak_holders p xs s1 \<le> 4294967296" by simp
  with holders_le_peak [of p s1 xs] have "holders p s1 \<le> 4294967296" by simp
  from step_inv [OF Cons.prems(1) s1 this]
  have "rc_inv p (w \<or> wraps p x) d s1" .
  from Cons.IH [OF this pk r] show ?case by (simp add: wrapped_def disj_ac)
qed

lemma run_append:
  "run (xs @ ys) s = (case run xs s of Inl e \<Rightarrow> Inl e | Inr s1 \<Rightarrow> run ys s1)"
  by (induction xs arbitrary: s) (auto split: sum.splits)

lemma peak_holders_prefix: "peak_holders p xs s \<le> peak_holders p (xs @ ys) s"
proof (induction xs arbitrary: s)
  case Nil
  show ?case by (simp add: holders_le_peak)
next
  case (Cons x xs)
  show ?case
  proof (cases "step x s")
    case (Inl e)
    then show ?thesis by simp
  next
    case (Inr s1)
    with Cons.IH [of s1] show ?thesis by auto
  qed
qed

section \<open>What a teardown does\<close>

lemma destroy_calls_Dec [simp]:
  "destroy_calls a (s\<lparr>heap := hp, trace := trace s @ [Dec b]\<rparr>) = destroy_calls a s"
  by (simp add: destroy_calls_def)

lemma destroy_calls_heap [simp]: "destroy_calls a (s\<lparr>heap := hp\<rparr>) = destroy_calls a s"
  by (simp add: destroy_calls_def)

text \<open>
  While the destructor of an object runs, and after it, no \<^verbatim>\<open>destroy()\<close> on that object
  returns: the teardown of an object calls \<^verbatim>\<open>destroy()\<close> on it once.
\<close>

lemma exec_no_destroy:
  assumes "exec v ts s = Inr s'" and "Free a \<in> set ts \<or> heap s a = None"
  shows "destroy_calls a s' = destroy_calls a s \<and> heap s' a = None"
  using assms
proof (induction v ts s arbitrary: s' rule: exec.induct)
  case (1 v s)
  then show ?case by simp
next
  case (2 v b ts s)
  let ?s1 = "s\<lparr>heap := (heap s)(b := None)\<rparr>"
  from "2.prems"(1) have ex: "exec v ts ?s1 = Inr s'" by simp
  from "2.prems"(2) have "Free a \<in> set ts \<or> heap ?s1 a = None" by auto
  from "2.IH" [OF ex this] show ?case by simp
next
  case (3 v b ts s)
  from "3.prems"(1) obtain obj new zero where
    obj: "heap s b = Some obj" and dc: "dec_count v (ref_count obj) = Inr (new, zero)"
    by (auto split: option.splits sum.splits)
  let ?s1 = "s\<lparr>heap := (heap s)(b \<mapsto> obj\<lparr>ref_count := new\<rparr>), trace := trace s @ [Dec b]\<rparr>"
  from "3.prems"(2) obj have pend: "Free a \<in> set ts \<or> (heap s a = None \<and> a \<noteq> b)" by auto
  show ?case
  proof (cases zero)
    case False
    with "3.prems"(1) obj dc have ex: "exec v ts ?s1 = Inr s'" by simp
    from pend have "Free a \<in> set ts \<or> heap ?s1 a = None" by auto
    from "3.IH"(2) [OF obj dc refl False ex this] show ?thesis by simp
  next
    case True
    with "3.prems"(1) obj dc have nf: "Free b \<notin> set ts"
      by (auto split: if_splits)
    with True "3.prems"(1) obj dc obtain ts' s2 where
      bd: "begin_destroy b (obj\<lparr>ref_count := new\<rparr>) ?s1 = Inr (ts', s2)"
      and ex: "exec v (ts' @ ts) s2 = Inr s'"
      by (auto split: sum.splits)
    from pend nf have ab: "a \<noteq> b" by auto
    from begin_destroy_Inr [OF bd] have hp2: "heap s2 = heap ?s1" by simp
    from destroy_calls_begin [OF bd, of a] ab
    have dc2: "destroy_calls a s2 = destroy_calls a s" by simp
    from pend ab have "Free a \<in> set (ts' @ ts) \<or> heap s2 a = None" by (auto simp: hp2)
    from "3.IH"(1) [OF obj dc refl True nf bd refl ex this] dc2 show ?thesis by simp
  qed
qed

lemma destroy_once:
  assumes "heap s a = Some obj" and "destroy a s = Inr s'"
  shows "destroy_calls a s' = Suc (destroy_calls a s) \<and> heap s' a = None"
proof -
  from assms obtain ts s1 where bd: "begin_destroy a obj s = Inr (ts, s1)"
    and ex: "exec Atomic ts s1 = Inr s'"
    by (auto simp: destroy_def split: sum.splits)
  from begin_destroy_Inr [OF bd] have "Free a \<in> set ts" by simp
  then have "Free a \<in> set ts \<or> heap s1 a = None" ..
  from exec_no_destroy [OF ex this] destroy_calls_begin [OF bd, of a]
  show ?thesis by simp
qed


lemma drop_members_none:
  assumes "member_ptrs a hs = []"
  shows "List.map_filter (member_ptr a) hs = []"
  using assms by (simp add: member_ptrs_def)

lemma destroy_flat:
  assumes obj: "heap s a = Some obj" and cls: "dyn_type obj \<noteq> Derived GCMultiObject"
      and flat: "member_ptrs a (handles s) = []"
  shows "destroy a s =
           Inr (s\<lparr>heap := (heap s)(a := None),
                  handles := drop_members a (handles s),
                  trace := trace s @ Destroy a (shape_of (dyn_type obj))
                             # (case shape_of (dyn_type obj) of
                                  GCSingleObject \<Rightarrow> [Dtor a 0]
                                | GCMultiObject \<Rightarrow> map (Dtor a) (rev [0..<len obj]))\<rparr>)"
proof (cases "dyn_type obj")
  case (Exactly c)
  with obj flat show ?thesis
    by (cases c)
      (simp_all add: destroy_def begin_destroy_def delete_scalar_def delete_array_def
        destroy_members_def)
next
  case (Derived c)
  with cls have "c = GCSingleObject" by (cases c) simp_all
  with Derived obj flat show ?thesis
    by (simp add: destroy_def begin_destroy_def delete_scalar_def destroy_members_def)
qed

lemma decRef_keep:
  assumes "heap s a = Some obj" and "ref_count obj \<noteq> 1"
  shows "decRef a s = Inr (s\<lparr>heap := (heap s)(a \<mapsto> obj\<lparr>ref_count := ref_count obj - 1\<rparr>),
                           trace := trace s @ [Dec a]\<rparr>)"
  using assms by (simp add: decRef_def fetch_sub_def)

lemma decRef_last:
  assumes "heap s a = Some obj" and "ref_count obj = 1"
  shows "decRef a s = destroy a (s\<lparr>heap := (heap s)(a \<mapsto> obj\<lparr>ref_count := ref_count obj - 1\<rparr>),
                           trace := trace s @ [Dec a]\<rparr>)"
  using assms by (simp add: decRef_unfold fetch_sub_def)

section \<open>Exactly one destroy per object\<close>

lemmas handle_defs =
  Ref_default_def Ref_from_ptr_def Ref_copy_def Ref_move_def assign_copy_def assign_move_def
  Ref_dtor_def new_handle_def place_ok_def get_ptr_def set_ptr_def get_place_def
  if_ptr_incRef_def if_ptr_decRef_def incRef_def decRef_def fetch_add_def fetch_sub_def
  begin_destroy_def delete_scalar_def delete_array_def destroy_members_def member_ptrs_def
  drop_members_def map_filter_simps

lemma heap_fresh_single:
  "heap fresh_single 0 = Some \<lparr>ref_count = 0, dyn_type = Derived GCSingleObject, len = 1\<rparr>"
  by (simp add: fresh_single_def allocate_def allocate_impl_single_def init_state_def)

lemma trace_fresh_single: "trace fresh_single = []"
  by (simp add: fresh_single_def allocate_def allocate_impl_single_def init_state_def)

lemma handles_fresh_single: "handles fresh_single = []"
  by (simp add: fresh_single_def allocate_def allocate_impl_single_def init_state_def)

lemma fresh_single_eq:
  "fresh_single =
     \<lparr>heap = (\<lambda>_. None)(0 \<mapsto> \<lparr>ref_count = 0, dyn_type = Derived GCSingleObject, len = 1\<rparr>),
      next_addr = 1, handles = [], trace = []\<rparr>"
  by (simp add: fresh_single_def allocate_def allocate_impl_single_def init_state_def)

text \<open>
  Claim C1, amended. Take an object with count 0 that no handle holds, and any program
  of handle operations that runs without undefined behaviour and in which at most
  \<open>2^32\<close> handles hold the object at one time. At every point of the run, that is after
  every prefix \<open>xs\<close> of the program, \<^verbatim>\<open>destroy()\<close> has been invoked on the object exactly
  once if a handle was constructed from its raw pointer and no handle holds it any more,
  and not at all otherwise; the object is gone in exactly the first case, and while it
  is alive its count is the number of handles holding it, modulo \<open>2^32\<close>. So the call is
  made in the step that releases the last holder, and in no other. Handles that are
  members of managed objects count as holders; they are released when their object is
  destroyed.
\<close>

theorem destroy_exactly_once:
  assumes obj: "heap s0 p = Some obj" and zero: "ref_count obj = 0"
      and none: "holders p s0 = 0"
      and bound: "peak_holders p (xs @ ys) s0 \<le> 4294967296"
      and run: "run (xs @ ys) s0 = Inr s_end"
  shows "\<exists>s'. run xs s0 = Inr s'
       \<and> destroy_calls p s'
           = destroy_calls p s0 + (if holders p s' = 0 \<and> wrapped p xs then 1 else 0)
       \<and> (heap s' p = None \<longleftrightarrow> holders p s' = 0 \<and> wrapped p xs)
       \<and> (case heap s' p of None \<Rightarrow> True
           | Some obj' \<Rightarrow> unat (ref_count obj') = holders p s' mod 4294967296)"
proof -
  from run obtain s' where s': "run xs s0 = Inr s'"
    by (auto simp: run_append split: sum.splits)
  from peak_holders_prefix [of p xs s0 ys] bound
  have b: "peak_holders p xs s0 \<le> 4294967296" by simp
  have "rc_inv p False (destroy_calls p s0) s0"
    using obj zero none by (simp add: rc_inv_def phase_ok_def)
  from run_inv [OF this b s']
  have "phase_ok p (wrapped p xs) (destroy_calls p s0) (holders p s') [] s'"
    by (simp add: rc_inv_def)
  then have "destroy_calls p s'
           = destroy_calls p s0 + (if holders p s' = 0 \<and> wrapped p xs then 1 else 0)
       \<and> (heap s' p = None \<longleftrightarrow> holders p s' = 0 \<and> wrapped p xs)
       \<and> (case heap s' p of None \<Rightarrow> True
           | Some obj' \<Rightarrow> unat (ref_count obj') = holders p s' mod 4294967296)"
    by (cases "heap s' p") (auto simp: phase_ok_def unat_of_nat)
  with s' have "run xs s0 = Inr s'
       \<and> destroy_calls p s'
           = destroy_calls p s0 + (if holders p s' = 0 \<and> wrapped p xs then 1 else 0)
       \<and> (heap s' p = None \<longleftrightarrow> holders p s' = 0 \<and> wrapped p xs)
       \<and> (case heap s' p of None \<Rightarrow> True
           | Some obj' \<Rightarrow> unat (ref_count obj') = holders p s' mod 4294967296)"
    by (rule conjI)
  then show ?thesis by (rule exI)
qed

lemma run_demo_share:
  "run demo_share fresh_single =
     Inr \<lparr>heap = (\<lambda>_. None)(0 \<mapsto> \<lparr>ref_count = 1, dyn_type = Derived GCSingleObject, len = 1\<rparr>),
          next_addr = 1,
          handles = [Gone, Live Client (Some 0), Live Client None],
          trace = [Inc 0, Inc 0, Dec 0]\<rparr>"
  by (simp add: demo_share_def fresh_single_eq handle_defs)

lemma run_demo_release:
  "run demo_release
     \<lparr>heap = (\<lambda>_. None)(0 \<mapsto> \<lparr>ref_count = 1, dyn_type = Derived GCSingleObject, len = 1\<rparr>),
      next_addr = 1,
      handles = [Gone, Live Client (Some 0), Live Client None],
      trace = [Inc 0, Inc 0, Dec 0]\<rparr> =
     Inr \<lparr>heap = (\<lambda>_. None),
          next_addr = 1,
          handles = [Gone, Gone, Gone],
          trace = [Inc 0, Inc 0, Dec 0, Dec 0, Destroy 0 GCSingleObject, Dtor 0 0]\<rparr>"
  unfolding demo_release_def
  by (simp add: handle_defs)

lemma peak_demo:
  "peak_holders 0 (demo_share @ demo_release) fresh_single = 2"
  by (simp add: demo_share_def demo_release_def fresh_single_eq handle_defs holders_def
      holders_of_def)

theorem destroy_exactly_once_witness:
  "heap fresh_single 0 = Some \<lparr>ref_count = 0, dyn_type = Derived GCSingleObject, len = 1\<rparr>
   \<and> holders 0 fresh_single = 0
   \<and> peak_holders 0 (demo_share @ demo_release) fresh_single \<le> 4294967296
   \<and> wrapped 0 demo_share
   \<and> (\<exists>s1 s2. run demo_share fresh_single = Inr s1
          \<and> holders 0 s1 = 1 \<and> destroy_calls 0 s1 = 0
          \<and> heap s1 0 = Some \<lparr>ref_count = 1, dyn_type = Derived GCSingleObject, len = 1\<rparr>
          \<and> run (demo_share @ demo_release) fresh_single = Inr s2
          \<and> holders 0 s2 = 0 \<and> destroy_calls 0 s2 = 1 \<and> heap s2 0 = None)"
proof -
  let ?obj = "\<lparr>ref_count = 0, dyn_type = Derived GCSingleObject, len = 1\<rparr>"
  let ?s1 = "\<lparr>heap = (\<lambda>_. None)(0 \<mapsto> \<lparr>ref_count = 1, dyn_type = Derived GCSingleObject, len = 1\<rparr>),
          next_addr = 1,
          handles = [Gone, Live Client (Some 0), Live Client None],
          trace = [Inc 0, Inc 0, Dec 0]\<rparr>"
  let ?s2 = "\<lparr>heap = (\<lambda>_. None),
          next_addr = 1,
          handles = [Gone, Gone, Gone],
          trace = [Inc 0, Inc 0, Dec 0, Dec 0, Destroy 0 GCSingleObject, Dtor 0 0]\<rparr>"
  have a: "holders 0 fresh_single = 0"
    by (simp add: holders_def holders_of_def handles_fresh_single)
  have b: "peak_holders 0 (demo_share @ demo_release) fresh_single \<le> 4294967296"
    by (simp add: peak_demo)
  have c: "wrapped 0 demo_share" by (simp add: wrapped_def demo_share_def)
  have z: "ref_count ?obj = 0" by simp
  have d0: "destroy_calls 0 fresh_single = 0"
    by (simp add: destroy_calls_def trace_fresh_single)
  have r: "run (demo_share @ demo_release) fresh_single = Inr ?s2"
    unfolding run_append run_demo_share by (simp only: sum.case run_demo_release)
  have h1: "holders 0 ?s1 = 1" and h2: "holders 0 ?s2 = 0"
    by (simp_all add: holders_def holders_of_def)
  from destroy_exactly_once [OF heap_fresh_single z a b r]
    run_demo_share h1 d0
  have 1: "destroy_calls 0 ?s1 = 0"
    by simp
  have b2: "peak_holders 0 ((demo_share @ demo_release) @ []) fresh_single \<le> 4294967296"
    using b by simp
  have r2: "run ((demo_share @ demo_release) @ []) fresh_single = Inr ?s2"
    using r by simp
  have c2: "wrapped 0 (demo_share @ demo_release)" using c by (simp add: wrapped_def)
  from destroy_exactly_once [OF heap_fresh_single z a b2 r2] r h2 d0 c2
  have 2: "destroy_calls 0 ?s2 = 1"
    by simp
  have "heap ?s1 0 = Some \<lparr>ref_count = 1, dyn_type = Derived GCSingleObject, len = 1\<rparr>"
    and "heap ?s2 0 = None"
    by simp_all
  with run_demo_share r h1 h2 1 2
  have "\<exists>s1 s2. run demo_share fresh_single = Inr s1
          \<and> holders 0 s1 = 1 \<and> destroy_calls 0 s1 = 0
          \<and> heap s1 0 = Some \<lparr>ref_count = 1, dyn_type = Derived GCSingleObject, len = 1\<rparr>
          \<and> run (demo_share @ demo_release) fresh_single = Inr s2
          \<and> holders 0 s2 = 0 \<and> destroy_calls 0 s2 = 1 \<and> heap s2 0 = None"
    by blast
  with heap_fresh_single a b c show ?thesis by blast
qed

lemma Ref_copy_holding:
  assumes "get_ptr h s = Inr (Some p)" and "heap s p = Some obj"
  shows "Ref_copy Client h s =
           Inr (length (handles s),
                s\<lparr>heap := (heap s)(p \<mapsto> obj\<lparr>ref_count := ref_count obj + 1\<rparr>),
                  handles := handles s @ [Live Client (Some p)],
                  trace := trace s @ [Inc p]\<rparr>)"
  using assms
  by (simp add: Ref_copy_def place_ok_def new_handle_def if_ptr_incRef_def incRef_def
      fetch_add_def)

lemma run_copies:
  assumes "get_ptr 0 s = Inr (Some a)" and "heap s a = Some obj"
  shows "run (replicate n (Copy Client 0)) s =
           Inr (s\<lparr>heap := (heap s)(a \<mapsto> obj\<lparr>ref_count := ref_count obj + of_nat n\<rparr>),
                  handles := handles s @ replicate n (Live Client (Some a)),
                  trace := trace s @ replicate n (Inc a)\<rparr>)"
  using assms
proof (induction n arbitrary: s obj)
  case 0
  then show ?case by (simp add: fun_upd_idem)
next
  case (Suc n)
  let ?s1 = "s\<lparr>heap := (heap s)(a \<mapsto> obj\<lparr>ref_count := ref_count obj + 1\<rparr>),
                 handles := handles s @ [Live Client (Some a)],
                 trace := trace s @ [Inc a]\<rparr>"
  from Ref_copy_holding [OF Suc.prems] have st: "step (Copy Client 0) s = Inr ?s1" by simp
  from Suc.prems(1) have g: "get_ptr 0 ?s1 = Inr (Some a)"
    by (auto simp: get_ptr_Inr nth_append)
  have "heap ?s1 a = Some (obj\<lparr>ref_count := ref_count obj + 1\<rparr>)" by simp
  note ih = Suc.IH [OF g this]
  have "run (replicate (Suc n) (Copy Client 0)) s = run (replicate n (Copy Client 0)) ?s1"
    using st by simp
  also note ih
  also have "?s1\<lparr>heap := (heap ?s1)(a \<mapsto> obj\<lparr>ref_count := ref_count obj + 1\<rparr>
                      \<lparr>ref_count := ref_count (obj\<lparr>ref_count := ref_count obj + 1\<rparr>) + word_of_nat n\<rparr>),
                  handles := handles ?s1 @ replicate n (Live Client (Some a)),
                  trace := trace ?s1 @ replicate n (Inc a)\<rparr>
      = s\<lparr>heap := (heap s)(a \<mapsto> obj\<lparr>ref_count := ref_count obj + of_nat (Suc n)\<rparr>),
                  handles := handles s @ replicate (Suc n) (Live Client (Some a)),
                  trace := trace s @ replicate (Suc n) (Inc a)\<rparr>"
    by (simp add: add.assoc)
  finally show ?case .
qed

lemma holders_of_replicate:
  "holders_of p (replicate n (Live pl (Some p))) = n"
  by (induction n) (simp_all add: holders_of_def)

lemma get_ptr_held_single: "get_ptr 0 held_single = Inr (Some 0)"
  by (simp add: get_ptr_def held_single_def)

lemma held_single_reached:
  "Ref_from_ptr Client (Some 0) fresh_single = Inr (0, held_single)"
  by (simp add: held_single_def fresh_single_eq handle_defs)

lemma drop_members_clients:
  "drop_members a (Live Client q # replicate n (Live Client r))
     = Live Client q # replicate n (Live Client r)"
  by (simp add: drop_members_def)

lemma member_ptrs_clients:
  "member_ptrs a (Live Client q # replicate n (Live Client r)) = []"
proof -
  have "List.map_filter (member_ptr a) (replicate n (Live Client r)) = []"
    by (induction n) (simp_all add: map_filter_simps)
  then show ?thesis by (simp add: member_ptrs_def map_filter_simps)
qed

text \<open>
  Claim C1, as stated, fails when the count wraps. Handle 0 wraps the raw pointer, \<open>2^32\<close>
  copies of it are made, which brings the 32-bit count back to 1, and handle 0 leaves
  scope: its decrement reads 1 and invokes \<^verbatim>\<open>destroy()\<close> although \<open>2^32\<close> handles still
  hold the object. Every step of this run is defined, and \<open>2^32 + 1\<close> handles hold the
  object at its peak.
\<close>

theorem destroy_while_held_counterexample:
  "run (FromPtr Client (Some 0) # replicate 4294967296 (Copy Client 0) @ [ScopeExit 0])
       fresh_single
     = Inr wrapped_count
   \<and> destroy_calls 0 wrapped_count = 1
   \<and> holders 0 wrapped_count = 4294967296"
proof -
  let ?obj = "\<lparr>ref_count = 1, dyn_type = Derived GCSingleObject, len = 1\<rparr>"
  let ?s2 = "held_single
       \<lparr>heap := (heap held_single)(0 \<mapsto> ?obj\<lparr>ref_count := ref_count ?obj + of_nat 4294967296\<rparr>),
        handles := handles held_single @ replicate 4294967296 (Live Client (Some 0)),
        trace := trace held_single @ replicate 4294967296 (Inc 0)\<rparr>"
  have 1: "step (FromPtr Client (Some 0)) fresh_single = Inr held_single"
    by (simp add: held_single_reached)
  have h: "heap held_single 0 = Some ?obj" by (simp add: held_single_def)
  from run_copies [OF get_ptr_held_single h, of 4294967296]
  have 2: "run (replicate 4294967296 (Copy Client 0)) held_single = Inr ?s2" .
  have c: "ref_count ?obj + of_nat 4294967296 = (1 :: 32 word)" by simp
  have 3: "step (ScopeExit 0) ?s2 = Inr wrapped_count"
    unfolding c
    by (simp add: Ref_dtor_def get_ptr_def get_place_def if_ptr_decRef_def decRef_def
        fetch_sub_def begin_destroy_def delete_scalar_def destroy_members_def
        drop_members_clients member_ptrs_clients
        held_single_def wrapped_count_def fresh_single_eq)
  have "run (FromPtr Client (Some 0) # replicate 4294967296 (Copy Client 0) @ [ScopeExit 0])
          fresh_single
      = Inr wrapped_count"
    using 1 2 3 by (simp add: run_append)
  moreover have "destroy_calls 0 wrapped_count = 1"
    by (simp add: destroy_calls_def wrapped_count_def)
  moreover have "holders 0 wrapped_count = 4294967296"
    by (simp add: holders_def wrapped_count_def holders_of_Cons holders_of_replicate)
  ultimately show ?thesis by blast
qed

text \<open>
  Wrapping the raw pointer again after the last handle released the object is undefined
  behaviour: the constructor increments the count of an object that is gone.
\<close>

lemma rewrap_after_destroy_undefined:
  "run [FromPtr Client (Some 0), ScopeExit 0, FromPtr Client (Some 0), ScopeExit 1] fresh_single
     = Inl DanglingPointer"
  by (simp add: fresh_single_eq handle_defs)

text \<open>
  The list of two nodes is built by handle operations, and the scope exit of its head
  tears down both nodes, the first node's \<^verbatim>\<open>next\<close> releasing the second.
\<close>

lemma list_of_two_reached:
  "run [FromPtr Client (Some 0), FromPtr (Member 0) (Some 1), Default (Member 1), Default Client]
     (snd (allocate (Derived GCSingleObject) 0 fresh_single))
   = Inr list_of_two"
  by (simp add: list_of_two_def fresh_single_eq allocate_def allocate_impl_single_def
      handle_defs fun_upd_twist)

lemma list_release_cascades:
  "run [ScopeExit 0] list_of_two =
     Inr \<lparr>heap = (\<lambda>_. None), next_addr = 2,
          handles = [Gone, Gone, Gone, Live Client None],
          trace = [Inc 0, Inc 1, Dec 0, Destroy 0 GCSingleObject, Dtor 0 0,
                   Dec 1, Destroy 1 GCSingleObject, Dtor 1 0]\<rparr>"
  by (simp add: list_of_two_def handle_defs)

section \<open>The count protocol of one object\<close>

text \<open>
  Claim C2. A factory creates the object with count 0 (the array factory creates an
  object when its element count is positive); wrapping the fresh pointer with
  \<^verbatim>\<open>Ref(T*)\<close>, at any place, brings the count to 1; and every \<^verbatim>\<open>decRef\<close> on a live object
  writes the 32-bit count decreased by one and then calls \<^verbatim>\<open>destroy()\<close> exactly when the
  count after the decrement is zero, and is done otherwise. A \<^verbatim>\<open>destroy()\<close> that returns
  was the only one on the object and has released it. For every object that is not an
  array of a user class and whose member handles hold nothing it returns, and all it
  does is record the call, run the destructor of each element once, and release the
  object and its empty member handles.
\<close>

theorem lifecycle_counts:
  "((shape_of T = GCSingleObject \<or> 0 < n) \<and> place_ok pl s \<longrightarrow>
      (\<exists>p s1 obj. allocate T n s = (p, s1) \<and> heap s1 p = Some obj \<and> ref_count obj = 0
          \<and> dyn_type obj = T
          \<and> Ref_from_ptr pl (Some p) s1 =
              Inr (length (handles s),
                   s1\<lparr>heap := (heap s1)(p \<mapsto> obj\<lparr>ref_count := 1\<rparr>),
                      handles := handles s @ [Live pl (Some p)],
                      trace := trace s @ [Inc p]\<rparr>)))
   \<and> (heap s a = Some o1 \<longrightarrow>
      (\<exists>s1. s1 = s\<lparr>heap := (heap s)(a \<mapsto> o1\<lparr>ref_count := ref_count o1 - 1\<rparr>),
                    trace := trace s @ [Dec a]\<rparr>
         \<and> decRef a s = (if ref_count o1 - 1 = 0 then destroy a s1 else Inr s1)
         \<and> destroy_calls a s1 = destroy_calls a s
         \<and> (\<forall>s2. destroy a s1 = Inr s2 \<longrightarrow>
               destroy_calls a s2 = Suc (destroy_calls a s) \<and> heap s2 a = None)
         \<and> (dyn_type o1 \<noteq> Derived GCMultiObject \<and> member_ptrs a (handles s) = [] \<longrightarrow>
               destroy a s1 =
                 Inr (s1\<lparr>heap := (heap s1)(a := None),
                        handles := drop_members a (handles s),
                        trace := trace s1 @ Destroy a (shape_of (dyn_type o1))
                                   # (case shape_of (dyn_type o1) of
                                        GCSingleObject \<Rightarrow> [Dtor a 0]
                                      | GCMultiObject \<Rightarrow> map (Dtor a) (rev [0..<len o1]))\<rparr>))))"
proof (intro conjI impI)
  assume a: "(shape_of T = GCSingleObject \<or> 0 < n) \<and> place_ok pl s"
  then have "place_ok pl (snd (allocate T n s))"
    by (cases "shape_of T"; cases pl)
      (auto simp: allocate_def allocate_impl_single_def allocate_impl_multi_def Let_def
        place_ok_def)
  with a show "\<exists>p s1 obj. allocate T n s = (p, s1) \<and> heap s1 p = Some obj \<and> ref_count obj = 0
          \<and> dyn_type obj = T
          \<and> Ref_from_ptr pl (Some p) s1 =
              Inr (length (handles s),
                   s1\<lparr>heap := (heap s1)(p \<mapsto> obj\<lparr>ref_count := 1\<rparr>),
                      handles := handles s @ [Live pl (Some p)],
                      trace := trace s @ [Inc p]\<rparr>)"
    by (cases "shape_of T")
      (auto simp: allocate_def allocate_impl_single_def allocate_impl_multi_def Let_def
        Ref_from_ptr_def new_handle_def if_ptr_incRef_def incRef_def fetch_add_def)
next
  assume o1: "heap s a = Some o1"
  let ?s1 = "s\<lparr>heap := (heap s)(a \<mapsto> o1\<lparr>ref_count := ref_count o1 - 1\<rparr>),
                 trace := trace s @ [Dec a]\<rparr>"
  have z: "ref_count o1 - 1 = 0 \<longleftrightarrow> ref_count o1 = 1" by auto
  have h1: "heap ?s1 a = Some (o1\<lparr>ref_count := ref_count o1 - 1\<rparr>)" by simp
  have 1: "decRef a s = (if ref_count o1 - 1 = 0 then destroy a ?s1 else Inr ?s1)"
    using decRef_keep [OF o1] decRef_last [OF o1] z by auto
  have 2: "destroy_calls a ?s1 = destroy_calls a s" by simp
  have 3: "\<forall>s2. destroy a ?s1 = Inr s2 \<longrightarrow>
               destroy_calls a s2 = Suc (destroy_calls a s) \<and> heap s2 a = None"
    using destroy_once [OF h1] 2 by auto
  have 4: "dyn_type o1 \<noteq> Derived GCMultiObject \<and> member_ptrs a (handles s) = [] \<longrightarrow>
               destroy a ?s1 =
                 Inr (?s1\<lparr>heap := (heap ?s1)(a := None),
                        handles := drop_members a (handles s),
                        trace := trace ?s1 @ Destroy a (shape_of (dyn_type o1))
                                   # (case shape_of (dyn_type o1) of
                                        GCSingleObject \<Rightarrow> [Dtor a 0]
                                      | GCMultiObject \<Rightarrow> map (Dtor a) (rev [0..<len o1]))\<rparr>)"
  proof
    assume f: "dyn_type o1 \<noteq> Derived GCMultiObject \<and> member_ptrs a (handles s) = []"
    then have "dyn_type (o1\<lparr>ref_count := ref_count o1 - 1\<rparr>) \<noteq> Derived GCMultiObject"
      and "member_ptrs a (handles ?s1) = []"
      by simp_all
    from destroy_flat [OF h1 this]
    show "destroy a ?s1 =
                 Inr (?s1\<lparr>heap := (heap ?s1)(a := None),
                        handles := drop_members a (handles s),
                        trace := trace ?s1 @ Destroy a (shape_of (dyn_type o1))
                                   # (case shape_of (dyn_type o1) of
                                        GCSingleObject \<Rightarrow> [Dtor a 0]
                                      | GCMultiObject \<Rightarrow> map (Dtor a) (rev [0..<len o1]))\<rparr>)"
      by (cases "shape_of (dyn_type o1)") simp_all
  qed
  from 1 2 3 4
  show "\<exists>s1. s1 = ?s1
         \<and> decRef a s = (if ref_count o1 - 1 = 0 then destroy a s1 else Inr s1)
         \<and> destroy_calls a s1 = destroy_calls a s
         \<and> (\<forall>s2. destroy a s1 = Inr s2 \<longrightarrow>
               destroy_calls a s2 = Suc (destroy_calls a s) \<and> heap s2 a = None)
         \<and> (dyn_type o1 \<noteq> Derived GCMultiObject \<and> member_ptrs a (handles s) = [] \<longrightarrow>
               destroy a s1 =
                 Inr (s1\<lparr>heap := (heap s1)(a := None),
                        handles := drop_members a (handles s),
                        trace := trace s1 @ Destroy a (shape_of (dyn_type o1))
                                   # (case shape_of (dyn_type o1) of
                                        GCSingleObject \<Rightarrow> [Dtor a 0]
                                      | GCMultiObject \<Rightarrow> map (Dtor a) (rev [0..<len o1]))\<rparr>))"
    by blast
qed

theorem lifecycle_counts_witness:
  "(shape_of (Derived GCSingleObject) = GCSingleObject \<or> (0::nat) < 0)
   \<and> place_ok Client held_single
   \<and> heap held_single 0 = Some \<lparr>ref_count = 1, dyn_type = Derived GCSingleObject, len = 1\<rparr>
   \<and> member_ptrs 0 (handles held_single) = []
   \<and> (\<exists>p s1 obj. allocate (Derived GCSingleObject) 0 held_single = (p, s1)
          \<and> heap s1 p = Some obj \<and> ref_count obj = 0
          \<and> Ref_from_ptr Client (Some p) s1 =
              Inr (length (handles held_single),
                   s1\<lparr>heap := (heap s1)(p \<mapsto> obj\<lparr>ref_count := 1\<rparr>),
                      handles := handles held_single @ [Live Client (Some p)],
                      trace := trace held_single @ [Inc p]\<rparr>))
   \<and> decRef 0 held_single =
       Inr \<lparr>heap = (\<lambda>_. None), next_addr = 1, handles = [Live Client (Some 0)],
            trace = [Inc 0, Dec 0, Destroy 0 GCSingleObject, Dtor 0 0]\<rparr>
   \<and> destroy_calls 0 \<lparr>heap = (\<lambda>_. None), next_addr = 1, handles = [Live Client (Some 0)],
            trace = [Inc 0, Dec 0, Destroy 0 GCSingleObject, Dtor 0 0]\<rparr>
       = Suc (destroy_calls 0 held_single)"
proof -
  let ?o = "\<lparr>ref_count = 1, dyn_type = Derived GCSingleObject, len = 1\<rparr>"
  have h: "heap held_single 0 = Some ?o"
    by (simp add: held_single_def)
  have pl: "place_ok Client held_single" by (simp add: place_ok_def)
  have m: "member_ptrs 0 (handles held_single) = []"
    by (simp add: held_single_def member_ptrs_def map_filter_simps)
  have c: "dyn_type ?o \<noteq> Derived GCMultiObject" and z: "ref_count ?o - 1 = 0" by simp_all
  note w = lifecycle_counts [of "Derived GCSingleObject" 0 Client held_single 0 ?o]
  from w pl have "\<exists>p s1 obj. allocate (Derived GCSingleObject) 0 held_single = (p, s1)
          \<and> heap s1 p = Some obj \<and> ref_count obj = 0
          \<and> Ref_from_ptr Client (Some p) s1 =
              Inr (length (handles held_single),
                   s1\<lparr>heap := (heap s1)(p \<mapsto> obj\<lparr>ref_count := 1\<rparr>),
                      handles := handles held_single @ [Live Client (Some p)],
                      trace := trace held_single @ [Inc p]\<rparr>)"
    by auto
  moreover from w h m c z
  have d: "decRef 0 held_single =
       Inr \<lparr>heap = (\<lambda>_. None), next_addr = 1, handles = [Live Client (Some 0)],
            trace = [Inc 0, Dec 0, Destroy 0 GCSingleObject, Dtor 0 0]\<rparr>"
    by (simp add: held_single_def drop_members_def)
  moreover from w h d
  have "destroy_calls 0 \<lparr>heap = (\<lambda>_. None), next_addr = 1, handles = [Live Client (Some 0)],
            trace = [Inc 0, Dec 0, Destroy 0 GCSingleObject, Dtor 0 0]\<rparr>
       = Suc (destroy_calls 0 held_single)"
    by simp
  ultimately show ?thesis using h pl m by simp
qed

text \<open>
  Claim C10. \<^verbatim>\<open>decRef\<close> on a live object whose count is 0 does not invoke
  \<^verbatim>\<open>destroy()\<close>: in both variants the object stays, its count becomes -1, and the only
  event is the decrement.
\<close>

theorem decRef_at_zero:
  assumes "heap s a = Some obj" and "ref_count obj = 0"
  shows "decRef a s = Inr (s\<lparr>heap := (heap s)(a \<mapsto> obj\<lparr>ref_count := - 1\<rparr>), trace := trace s @ [Dec a]\<rparr>)
       \<and> decRef_plain a s = Inr (s\<lparr>heap := (heap s)(a \<mapsto> obj\<lparr>ref_count := - 1\<rparr>), trace := trace s @ [Dec a]\<rparr>)
       \<and> sint (ref_count obj - 1) = - 1
       \<and> destroy_calls a (s\<lparr>heap := (heap s)(a \<mapsto> obj\<lparr>ref_count := - 1\<rparr>), trace := trace s @ [Dec a]\<rparr>)
           = destroy_calls a s"
  using assms by (simp add: decRef_def decRef_plain_def fetch_sub_def INT_MIN_def destroy_calls_def)

theorem decRef_at_zero_witness:
  "heap fresh_single 0 = Some \<lparr>ref_count = 0, dyn_type = Derived GCSingleObject, len = 1\<rparr>
   \<and> decRef 0 fresh_single =
       Inr (fresh_single\<lparr>heap := (heap fresh_single)(0 \<mapsto> \<lparr>ref_count = - 1, dyn_type = Derived GCSingleObject, len = 1\<rparr>),
                         trace := [Dec 0]\<rparr>)
   \<and> sint (- 1 :: 32 word) = - 1"
proof -
  from decRef_at_zero [OF heap_fresh_single] heap_fresh_single trace_fresh_single
  show ?thesis by simp
qed

text \<open>
  Claim C5. Copy-assigning or move-assigning a holding handle onto itself returns the
  state as it was: the held pointer, the count and the trace are unchanged, so no
  decrement and no \<^verbatim>\<open>destroy()\<close> occurred.
\<close>

theorem self_assignment_noop:
  assumes "get_ptr h s = Inr (Some p)"
  shows "assign_copy h h s = Inr s \<and> assign_move h h s = Inr s"
  using assms by (simp add: assign_copy_def assign_move_def)

theorem self_assignment_noop_witness:
  "get_ptr 0 held_single = Inr (Some 0)
   \<and> assign_copy 0 0 held_single = Inr held_single
   \<and> assign_move 0 0 held_single = Inr held_single"
  using self_assignment_noop [OF get_ptr_held_single] get_ptr_held_single by simp

text \<open>
  Claim C9, as stated, makes every accessor undefined on an empty handle. Handle 2 of
  \<open>shared_single\<close> is empty, and the emptiness check and the raw-pointer retrieval are
  defined on it.
\<close>

theorem accessors_on_empty_handle_counterexample:
  "get_ptr 2 shared_single = Inr None
   \<and> operator_bool 2 shared_single = Inr False
   \<and> Ref_get 2 shared_single = Inr None"
  by (simp add: operator_bool_def Ref_get_def get_ptr_def shared_single_def)

text \<open>
  Claim C9, amended. While the handle holds a live object all accessors are defined.
  On an empty handle dereference and member access are undefined, whereas \<^verbatim>\<open>get()\<close>
  and \<^verbatim>\<open>operator->\<close> return the null pointer and \<^verbatim>\<open>operator bool\<close> returns false.
\<close>

theorem accessors_holding_and_empty:
  "(get_ptr h s = Inr (Some p) \<and> heap s p = Some obj \<longrightarrow>
      operator_star h s = Inr p \<and> member_access h s = Inr p
      \<and> operator_arrow h s = Inr (Some p) \<and> Ref_get h s = Inr (Some p)
      \<and> operator_bool h s = Inr True)
   \<and> (get_ptr e t = Inr None \<longrightarrow>
      operator_star e t = Inl NullDeref \<and> member_access e t = Inl NullDeref
      \<and> operator_arrow e t = Inr None \<and> Ref_get e t = Inr None
      \<and> operator_bool e t = Inr False)"
  by (simp add: operator_star_def member_access_def operator_arrow_def Ref_get_def
      operator_bool_def)

theorem accessors_holding_and_empty_witness:
  "get_ptr 0 shared_single = Inr (Some 0)
   \<and> heap shared_single 0 = Some \<lparr>ref_count = 2, dyn_type = Derived GCSingleObject, len = 1\<rparr>
   \<and> operator_star 0 shared_single = Inr 0 \<and> member_access 0 shared_single = Inr 0
   \<and> operator_bool 0 shared_single = Inr True
   \<and> get_ptr 2 shared_single = Inr None
   \<and> operator_star 2 shared_single = Inl NullDeref
   \<and> member_access 2 shared_single = Inl NullDeref
   \<and> operator_bool 2 shared_single = Inr False"
proof -
  have a: "get_ptr 0 shared_single = Inr (Some 0)"
    and b: "heap shared_single 0 = Some \<lparr>ref_count = 2, dyn_type = Derived GCSingleObject, len = 1\<rparr>"
    and c: "get_ptr 2 shared_single = Inr None"
    by (simp_all add: get_ptr_def shared_single_def)
  from accessors_holding_and_empty [of 0 shared_single 0
      "\<lparr>ref_count = 2, dyn_type = Derived GCSingleObject, len = 1\<rparr>" 2 shared_single] a b c
  show ?thesis by simp
qed

section \<open>Copying and moving handles\<close>

lemma handle_Live:
  "get_ptr h s = Inr q \<and> get_place h s = Inr pl
     \<longleftrightarrow> h < length (handles s) \<and> handles s ! h = Live pl q"
  by (auto simp: get_ptr_def get_place_def split: handle.splits)






lemma rev_upt_3: "rev [0..<3] = [2, 1, 0::nat]"
  by (simp add: upt_rec)






section \<open>Teardown of a run of elements\<close>

lemma count_Dtor_run:
  "count_list (map (Dtor p) (rev [0..<n])) (Dtor q i) = (if q = p \<and> i < n then 1 else 0)"
  by (induction n) auto

lemma member_ptrs_snoc_Client:
  "member_ptrs a (hs @ [Live Client q]) = member_ptrs a hs"
  by (simp add: member_ptrs_def map_filter_def)

text \<open>
  A run of \<open>n > 0\<close> elements of the class \<^verbatim>\<open>GCMultiObject\<close> itself, wrapped by one handle
  that then goes out of scope: the release calls \<^verbatim>\<open>destroy()\<close> of \<^verbatim>\<open>GCMultiObject\<close> once,
  the destructor of each of the \<open>n\<close> elements runs exactly once (last element first),
  no other destructor runs, and the object is gone.
\<close>

lemma array_release_of_base_class:
  assumes "0 < n" and "member_ptrs (next_addr s) (handles s) = []"
  shows "\<exists>p s1 h s2 s3.
           allocate (Exactly GCMultiObject) n s = (p, s1)
         \<and> Ref_from_ptr Client (Some p) s1 = Inr (h, s2)
         \<and> Ref_dtor h s2 = Inr s3
         \<and> heap s3 p = None
         \<and> events_since s s3
             = [Inc p, Dec p, Destroy p GCMultiObject] @ map (Dtor p) (rev [0..<n])
         \<and> (\<forall>q c. count_list (events_since s s3) (Destroy q c)
                     = (if q = p \<and> c = GCMultiObject then 1 else 0))
         \<and> (\<forall>q i. count_list (events_since s s3) (Dtor q i)
                     = (if q = p \<and> i < n then 1 else 0))"
proof -
  let ?p = "next_addr s"
  let ?obj = "\<lparr>ref_count = 0, dyn_type = Exactly GCMultiObject, len = n\<rparr>"
  let ?s1 = "s\<lparr>heap := (heap s)(?p \<mapsto> ?obj), next_addr := ?p + 1\<rparr>"
  let ?h = "length (handles s)"
  let ?s2 = "?s1\<lparr>heap := (heap ?s1)(?p \<mapsto> ?obj\<lparr>ref_count := 1\<rparr>),
                  handles := handles s @ [Live Client (Some ?p)],
                  trace := trace s @ [Inc ?p]\<rparr>"
  let ?ev = "[Inc ?p, Dec ?p, Destroy ?p GCMultiObject] @ map (Dtor ?p) (rev [0..<n])"
  let ?s3 = "?s2\<lparr>heap := (heap ?s2)(?p := None),
                  handles := (drop_members ?p (handles ?s2))[?h := Gone],
                  trace := trace s @ ?ev\<rparr>"
  have 1: "allocate (Exactly GCMultiObject) n s = (?p, ?s1)"
    using assms by (simp add: allocate_def allocate_impl_multi_def Let_def)
  have 2: "Ref_from_ptr Client (Some ?p) ?s1 = Inr (?h, ?s2)"
    by (simp add: Ref_from_ptr_def place_ok_def new_handle_def if_ptr_incRef_def incRef_def
        fetch_add_def)
  have m: "member_ptrs ?p (handles ?s2) = []"
    using assms(2) by (simp add: member_ptrs_snoc_Client)
  have 3: "Ref_dtor ?h ?s2 = Inr ?s3"
    using m
    by (simp add: Ref_dtor_def get_ptr_def if_ptr_decRef_def decRef_def fetch_sub_def
        begin_destroy_def delete_array_def destroy_members_def)
  have 4: "heap ?s3 ?p = None" by simp
  have 5: "events_since s ?s3 = ?ev" by (simp add: events_since_def)
  have 6: "\<forall>q c. count_list (events_since s ?s3) (Destroy q c)
                     = (if q = ?p \<and> c = GCMultiObject then 1 else 0)"
    unfolding 5 by (auto simp: count_list_0_iff)
  have 7: "\<forall>q i. count_list (events_since s ?s3) (Dtor q i)
                     = (if q = ?p \<and> i < n then 1 else 0)"
    unfolding 5 by (simp add: count_Dtor_run)
  from 1 2 3 4 5 6 7 show ?thesis by blast
qed

text \<open>
  Claim C6 does not hold of the code for the arrays that a program makes. The array
  factory called for a user class, which derives from \<^verbatim>\<open>GCMultiObject\<close>, makes elements of
  that class; the release through the one handle reaches \<^verbatim>\<open>delete[] this\<close> with \<^verbatim>\<open>this\<close>
  of type \<^verbatim>\<open>GCMultiObject*\<close>, an array delete through a pointer to a base class. This
  is undefined behaviour for every positive element count, 3 among them: the run does
  not end in a state in which the three elements have been destroyed.
\<close>

theorem array_release_of_user_class_undefined:
  assumes "0 < n"
  shows "\<exists>p s1 h s2.
           allocate (Derived GCMultiObject) n s = (p, s1)
         \<and> heap s1 p = Some \<lparr>ref_count = 0, dyn_type = Derived GCMultiObject, len = n\<rparr>
         \<and> Ref_from_ptr Client (Some p) s1 = Inr (h, s2)
         \<and> Ref_dtor h s2 = Inl ArrayDeleteMismatch"
proof -
  let ?p = "next_addr s"
  let ?obj = "\<lparr>ref_count = 0, dyn_type = Derived GCMultiObject, len = n\<rparr>"
  let ?s1 = "s\<lparr>heap := (heap s)(?p \<mapsto> ?obj), next_addr := ?p + 1\<rparr>"
  let ?h = "length (handles s)"
  let ?s2 = "?s1\<lparr>heap := (heap ?s1)(?p \<mapsto> ?obj\<lparr>ref_count := 1\<rparr>),
                  handles := handles s @ [Live Client (Some ?p)],
                  trace := trace s @ [Inc ?p]\<rparr>"
  have 1: "allocate (Derived GCMultiObject) n s = (?p, ?s1)"
    using assms by (simp add: allocate_def allocate_impl_multi_def Let_def)
  have 2: "Ref_from_ptr Client (Some ?p) ?s1 = Inr (?h, ?s2)"
    by (simp add: Ref_from_ptr_def place_ok_def new_handle_def if_ptr_incRef_def incRef_def
        fetch_add_def)
  have 3: "Ref_dtor ?h ?s2 = Inl ArrayDeleteMismatch"
    by (simp add: Ref_dtor_def get_ptr_def if_ptr_decRef_def decRef_def fetch_sub_def
        begin_destroy_def delete_array_def)
  have 4: "heap ?s1 ?p = Some ?obj" by simp
  from 1 2 3 4 show ?thesis by blast
qed

theorem array_release_of_user_class_undefined_witness:
  "(0::nat) < 3
   \<and> (\<exists>s1 s2.
         allocate (Derived GCMultiObject) 3 init_state = (0, s1)
       \<and> heap s1 0 = Some \<lparr>ref_count = 0, dyn_type = Derived GCMultiObject, len = 3\<rparr>
       \<and> Ref_from_ptr Client (Some 0) s1 = Inr (0, s2)
       \<and> Ref_dtor 0 s2 = Inl ArrayDeleteMismatch)"
proof -
  have n: "(0::nat) < 3" by simp
  from array_release_of_user_class_undefined [OF n, of init_state]
  obtain p s1 h s2 where
    a: "allocate (Derived GCMultiObject) 3 init_state = (p, s1)"
    and o: "heap s1 p = Some \<lparr>ref_count = 0, dyn_type = Derived GCMultiObject, len = 3\<rparr>"
    and b: "Ref_from_ptr Client (Some p) s1 = Inr (h, s2)"
    and c: "Ref_dtor h s2 = Inl ArrayDeleteMismatch"
    by blast
  from a have p: "p = 0"
    by (simp add: allocate_def allocate_impl_multi_def init_state_def Let_def)
  from a p have "handles s1 = []"
    by (auto simp: allocate_def allocate_impl_multi_def init_state_def Let_def)
  with b have h: "h = 0"
    by (auto simp: Ref_from_ptr_def new_handle_def place_ok_def split: sum.splits)
  from a o b c n show ?thesis unfolding p h by blast
qed

text \<open>The case of three elements of the class \<^verbatim>\<open>GCMultiObject\<close> itself.\<close>

lemma array_release_of_base_class_three:
  "\<exists>s1 s2 s3.
         allocate (Exactly GCMultiObject) 3 init_state = (0, s1)
       \<and> Ref_from_ptr Client (Some 0) s1 = Inr (0, s2)
       \<and> Ref_dtor 0 s2 = Inr s3
       \<and> heap s3 0 = None
       \<and> events_since init_state s3
           = [Inc 0, Dec 0, Destroy 0 GCMultiObject, Dtor 0 2, Dtor 0 1, Dtor 0 0]"
proof -
  have n: "(0::nat) < 3" by simp
  have m: "member_ptrs (next_addr init_state) (handles init_state) = []"
    by (simp add: init_state_def member_ptrs_def map_filter_simps)
  from array_release_of_base_class [OF n m]
  obtain p s1 h s2 s3 where
    a: "allocate (Exactly GCMultiObject) 3 init_state = (p, s1)"
    and b: "Ref_from_ptr Client (Some p) s1 = Inr (h, s2)"
    and c: "Ref_dtor h s2 = Inr s3" "heap s3 p = None"
    and e: "events_since init_state s3
             = [Inc p, Dec p, Destroy p GCMultiObject] @ map (Dtor p) (rev [0..<3])"
    by blast
  from a have p: "p = 0"
    by (simp add: allocate_def allocate_impl_multi_def init_state_def Let_def)
  from a p have "handles s1 = []"
    by (auto simp: allocate_def allocate_impl_multi_def init_state_def Let_def)
  with b have h: "h = 0"
    by (auto simp: Ref_from_ptr_def new_handle_def place_ok_def split: sum.splits)
  from e have e': "events_since init_state s3
           = [Inc 0, Dec 0, Destroy 0 GCMultiObject, Dtor 0 2, Dtor 0 1, Dtor 0 0]"
    unfolding rev_upt_3 p by simp
  with a b c show ?thesis unfolding p h by blast
qed

section \<open>The plain count against the atomic count\<close>

lemma dec_count_agrees:
  assumes "dec_count v c \<noteq> Inl SignedOverflow"
  shows "dec_count v c = dec_count Atomic c"
proof (cases v)
  case Atomic
  then show ?thesis by simp
next
  case Plain
  have z: "c - 1 = 0 \<longleftrightarrow> c = 1" by auto
  from Plain assms show ?thesis
    by (auto simp: fetch_sub_def Let_def z split: if_splits)
qed

lemma dec_count_error:
  assumes "dec_count v c = Inl e"
  shows "e = SignedOverflow"
  using assms by (cases v) (auto simp: fetch_sub_def Let_def split: if_splits)

lemma exec_agrees:
  assumes "exec v ts s \<noteq> Inl SignedOverflow"
  shows "exec Atomic ts s = exec v ts s"
  using assms
proof (induction v ts s rule: exec.induct)
  case (1 v s)
  show ?case by simp
next
  case (2 v a ts s)
  then show ?case by simp
next
  case (3 v a ts s)
  show ?case
  proof (cases "heap s a")
    case None
    then show ?thesis by simp
  next
    case (Some obj)
    show ?thesis
    proof (cases "dec_count v (ref_count obj)")
      case (Inl e)
      with dec_count_error [OF Inl] "3.prems" Some show ?thesis by simp
    next
      case (Inr r)
      obtain new zero where r: "r = (new, zero)" by (cases r)
      with Inr have dc: "dec_count v (ref_count obj) = Inr (new, zero)" by simp
      then have "dec_count v (ref_count obj) \<noteq> Inl SignedOverflow" by simp
      from dec_count_agrees [OF this] dc
      have da: "dec_count Atomic (ref_count obj) = Inr (new, zero)" by simp
      let ?s1 = "s\<lparr>heap := (heap s)(a \<mapsto> obj\<lparr>ref_count := new\<rparr>), trace := trace s @ [Dec a]\<rparr>"
      show ?thesis
      proof (cases zero)
        case False
        with "3.prems" Some dc have "exec v ts ?s1 \<noteq> Inl SignedOverflow" by simp
        from "3.IH"(2) [OF Some dc refl False this] False Some dc da show ?thesis
          by (simp del: dec_count.simps)
      next
        case True
        show ?thesis
        proof (cases "Free a \<in> set ts")
          case f: True
          with True Some dc da show ?thesis by (simp del: dec_count.simps)
        next
          case nf: False
          show ?thesis
          proof (cases "begin_destroy a (obj\<lparr>ref_count := new\<rparr>) ?s1")
            case (Inl e)
            with True nf Some dc da show ?thesis by (simp del: dec_count.simps)
          next
            case (Inr r2)
            obtain ts' s2 where r2: "r2 = (ts', s2)" by (cases r2)
            with Inr have bd: "begin_destroy a (obj\<lparr>ref_count := new\<rparr>) ?s1 = Inr (ts', s2)"
              by simp
            with "3.prems" True nf Some dc
            have "exec v (ts' @ ts) s2 \<noteq> Inl SignedOverflow" by simp
            from "3.IH"(1) [OF Some dc refl True nf bd refl this] True nf Some dc da bd
            show ?thesis by (simp del: dec_count.simps)
          qed
        qed
      qed
    qed
  qed
qed

lemma step_plain_agrees:
  assumes "step_plain x s \<noteq> Inl SignedOverflow"
  shows "step_atomic x s = step_plain x s"
proof (cases x)
  case (IncRef a)
  with assms show ?thesis
    by (auto simp: incRef_def incRef_plain_def fetch_add_def split: option.splits if_splits)
next
  case (DecRef a)
  with assms exec_agrees [of Plain "[Release a]" s] show ?thesis
    by (simp add: decRef_def decRef_plain_def)
qed

text \<open>
  Claim C8, amended. Run sequentially on the same program of increments and
  decrements, the plain variant and the atomic variant end in the same state (the same
  counts, and the same trace, hence \<^verbatim>\<open>destroy()\<close> at the same point, or the same
  error), unless the plain variant steps past \<open>INT_MAX\<close> or \<open>INT_MIN\<close>, where its
  behaviour is undefined. Every prefix of a program is a program, so the two agree at
  each point of the run.
\<close>

theorem plain_and_atomic_agree_without_overflow:
  assumes "run_plain ops s \<noteq> Inl SignedOverflow"
  shows "run_atomic ops s = run_plain ops s"
  using assms
proof (induction ops arbitrary: s)
  case Nil
  show ?case by simp
next
  case (Cons x xs)
  from Cons.prems have ne: "step_plain x s \<noteq> Inl SignedOverflow"
    by (auto split: sum.splits)
  have eq: "step_atomic x s = step_plain x s"
    by (rule step_plain_agrees [OF ne])
  show ?case
  proof (cases "step_plain x s")
    case (Inl e)
    with eq show ?thesis by simp
  next
    case (Inr s1)
    with Cons.prems have "run_plain xs s1 \<noteq> Inl SignedOverflow" by simp
    from Cons.IH [OF this] Inr eq show ?thesis by simp
  qed
qed

theorem plain_and_atomic_agree_without_overflow_witness:
  "run_plain [IncRef 0, IncRef 0, DecRef 0, DecRef 0] fresh_single \<noteq> Inl SignedOverflow
   \<and> run_atomic [IncRef 0, IncRef 0, DecRef 0, DecRef 0] fresh_single
       = run_plain [IncRef 0, IncRef 0, DecRef 0, DecRef 0] fresh_single
   \<and> run_plain [IncRef 0, IncRef 0, DecRef 0, DecRef 0] fresh_single
       = Inr (fresh_single
               \<lparr>heap := (heap fresh_single)(0 := None),
                trace := [Inc 0, Inc 0, Dec 0, Dec 0, Destroy 0 GCSingleObject, Dtor 0 0]\<rparr>)"
proof -
  have r: "run_plain [IncRef 0, IncRef 0, DecRef 0, DecRef 0] fresh_single
       = Inr (fresh_single
               \<lparr>heap := (heap fresh_single)(0 := None),
                trace := [Inc 0, Inc 0, Dec 0, Dec 0, Destroy 0 GCSingleObject, Dtor 0 0]\<rparr>)"
    by (simp add: incRef_plain_def decRef_plain_def fresh_single_eq INT_MAX_def INT_MIN_def
        begin_destroy_def delete_scalar_def destroy_members_def member_ptrs_def
        drop_members_def map_filter_simps)
  then have n: "run_plain [IncRef 0, IncRef 0, DecRef 0, DecRef 0] fresh_single
       \<noteq> Inl SignedOverflow"
    by simp
  from plain_and_atomic_agree_without_overflow [OF n] n r show ?thesis by blast
qed

lemma run_plain_append:
  "run_plain (xs @ ys) s = (case run_plain xs s of Inl e \<Rightarrow> Inl e | Inr s1 \<Rightarrow> run_plain ys s1)"
  by (induction xs arbitrary: s) (auto split: sum.splits)

lemma run_atomic_incs:
  assumes "heap s a = Some obj"
  shows "run_atomic (replicate n (IncRef a)) s =
           Inr (s\<lparr>heap := (heap s)(a \<mapsto> obj\<lparr>ref_count := ref_count obj + of_nat n\<rparr>),
                  trace := trace s @ replicate n (Inc a)\<rparr>)"
  using assms
proof (induction n arbitrary: s obj)
  case 0
  then show ?case by (simp add: fun_upd_idem)
next
  case (Suc n)
  let ?s1 = "s\<lparr>heap := (heap s)(a \<mapsto> obj\<lparr>ref_count := ref_count obj + 1\<rparr>),
                 trace := trace s @ [Inc a]\<rparr>"
  from Suc.prems have st: "incRef a s = Inr ?s1"
    by (simp add: incRef_def fetch_add_def)
  have "heap ?s1 a = Some (obj\<lparr>ref_count := ref_count obj + 1\<rparr>)" by simp
  note ih = Suc.IH [OF this]
  have "run_atomic (replicate (Suc n) (IncRef a)) s = run_atomic (replicate n (IncRef a)) ?s1"
    using st by simp
  also note ih
  also have "?s1\<lparr>heap := (heap ?s1)(a \<mapsto> obj\<lparr>ref_count := ref_count obj + 1\<rparr>
                      \<lparr>ref_count := ref_count (obj\<lparr>ref_count := ref_count obj + 1\<rparr>) + word_of_nat n\<rparr>),
                  trace := trace ?s1 @ replicate n (Inc a)\<rparr>
      = s\<lparr>heap := (heap s)(a \<mapsto> obj\<lparr>ref_count := ref_count obj + of_nat (Suc n)\<rparr>),
                  trace := trace s @ replicate (Suc n) (Inc a)\<rparr>"
    by (simp add: add.assoc)
  finally show ?case .
qed

lemma run_plain_incs:
  assumes "heap s a = Some obj" and "unat (ref_count obj) + n \<le> 2147483647"
  shows "run_plain (replicate n (IncRef a)) s =
           Inr (s\<lparr>heap := (heap s)(a \<mapsto> obj\<lparr>ref_count := ref_count obj + of_nat n\<rparr>),
                  trace := trace s @ replicate n (Inc a)\<rparr>)"
  using assms
proof (induction n arbitrary: s obj)
  case 0
  then show ?case by (simp add: fun_upd_idem)
next
  case (Suc n)
  let ?s1 = "s\<lparr>heap := (heap s)(a \<mapsto> obj\<lparr>ref_count := ref_count obj + 1\<rparr>),
                 trace := trace s @ [Inc a]\<rparr>"
  from Suc.prems(2) have lt: "unat (ref_count obj) < 2147483647" by simp
  then have ne: "ref_count obj \<noteq> INT_MAX"
    by (auto simp: INT_MAX_def)
  with Suc.prems have st: "incRef_plain a s = Inr ?s1"
    by (simp add: incRef_plain_def)
  have "unat (ref_count obj) + unat (1 :: 32 word) < 2 ^ LENGTH(32)"
    using lt by simp
  then have "unat (ref_count obj + 1) = unat (ref_count obj) + unat (1 :: 32 word)"
    by (simp only: unat_add_lem)
  with Suc.prems(2) have b: "unat (ref_count (obj\<lparr>ref_count := ref_count obj + 1\<rparr>)) + n \<le> 2147483647"
    by simp
  have "heap ?s1 a = Some (obj\<lparr>ref_count := ref_count obj + 1\<rparr>)" by simp
  note ih = Suc.IH [OF this b]
  have "run_plain (replicate (Suc n) (IncRef a)) s = run_plain (replicate n (IncRef a)) ?s1"
    using st by simp
  also note ih
  also have "?s1\<lparr>heap := (heap ?s1)(a \<mapsto> obj\<lparr>ref_count := ref_count obj + 1\<rparr>
                      \<lparr>ref_count := ref_count (obj\<lparr>ref_count := ref_count obj + 1\<rparr>) + word_of_nat n\<rparr>),
                  trace := trace ?s1 @ replicate n (Inc a)\<rparr>
      = s\<lparr>heap := (heap s)(a \<mapsto> obj\<lparr>ref_count := ref_count obj + of_nat (Suc n)\<rparr>),
                  trace := trace s @ replicate (Suc n) (Inc a)\<rparr>"
    by (simp add: add.assoc)
  finally show ?case .
qed

text \<open>
  Claim C8, as stated, fails on the program of \<open>2^31\<close> increments of a fresh object: the
  last \<^verbatim>\<open>++ref_count\<close> of the plain variant overflows \<^verbatim>\<open>int\<close>, which is undefined,
  whereas the atomic count wraps to \<open>INT_MIN\<close>.
\<close>

theorem plain_overflows_where_atomic_wraps_counterexample:
  "run_plain (replicate 2147483648 (IncRef 0)) fresh_single = Inl SignedOverflow
   \<and> run_atomic (replicate 2147483648 (IncRef 0)) fresh_single =
       Inr (fresh_single
             \<lparr>heap := (heap fresh_single)
                (0 \<mapsto> \<lparr>ref_count = INT_MIN, dyn_type = Derived GCSingleObject, len = 1\<rparr>),
              trace := replicate 2147483648 (Inc 0)\<rparr>)"
proof -
  let ?obj = "\<lparr>ref_count = 0, dyn_type = Derived GCSingleObject, len = 1\<rparr>"
  have split: "replicate 2147483648 (IncRef 0) = replicate 2147483647 (IncRef 0) @ [IncRef 0]"
  proof -
    have "(2147483648::nat) = 2147483647 + 1" by simp
    then show ?thesis by (simp only: replicate_add) simp
  qed
  have "unat (ref_count ?obj) + 2147483647 \<le> 2147483647" by simp
  from run_plain_incs [OF heap_fresh_single this]
  have "run_plain (replicate 2147483647 (IncRef 0)) fresh_single =
          Inr (fresh_single
                \<lparr>heap := (heap fresh_single)(0 \<mapsto> ?obj\<lparr>ref_count := INT_MAX\<rparr>),
                 trace := replicate 2147483647 (Inc 0)\<rparr>)"
    by (simp add: trace_fresh_single INT_MAX_def)
  then have 1: "run_plain (replicate 2147483648 (IncRef 0)) fresh_single = Inl SignedOverflow"
    unfolding split run_plain_append by (simp add: incRef_plain_def)
  from run_atomic_incs [OF heap_fresh_single, of 2147483648]
  have 2: "run_atomic (replicate 2147483648 (IncRef 0)) fresh_single =
       Inr (fresh_single
             \<lparr>heap := (heap fresh_single)
                (0 \<mapsto> \<lparr>ref_count = INT_MIN, dyn_type = Derived GCSingleObject, len = 1\<rparr>),
              trace := replicate 2147483648 (Inc 0)\<rparr>)"
    by (simp add: trace_fresh_single INT_MIN_def)
  from 1 2 show ?thesis by blast
qed

section \<open>Threads on one object\<close>























end
